theory Spec2Isabelle
  imports Main "HOL-Library.Word" "HOL-Library.Sublist"
begin

section \<open>The rate limiter (src/rate-limiter.ts)\<close>

text \<open>
  The class \<^verbatim>\<open>RateLimiter\<close> has four numeric fields. The specification declares them
  integers, and every value the code stores in them is an integer when the constructor
  arguments are, so they are modelled as unbounded \<open>int\<close> (a JavaScript number is
  exact on integers below \<open>2^53\<close>). \<^verbatim>\<open>Date.now()\<close> is an input of the environment: each
  operation that reads the clock takes the reading as the argument \<open>now\<close>.
\<close>

record RateLimiter =
  tokens :: int
  lastRefill :: int
  maxTokens :: int
  refillIntervalMs :: int

text \<open>The constructor; \<open>now\<close> is the clock reading at construction.\<close>

definition RateLimiter_new :: "int \<Rightarrow> int \<Rightarrow> int \<Rightarrow> RateLimiter" where
  "RateLimiter_new maxT interval now =
     \<lparr>tokens = maxT, lastRefill = now, maxTokens = maxT, refillIntervalMs = interval\<rparr>"

text \<open>The default arguments of the constructor: 20 tokens per 30000 ms.\<close>

definition RateLimiter_default :: "int \<Rightarrow> RateLimiter" where
  "RateLimiter_default now = RateLimiter_new 20 30000 now"

definition setModeratorMode :: "RateLimiter \<Rightarrow> bool \<Rightarrow> RateLimiter" where
  "setModeratorMode s isMod = s\<lparr>maxTokens := (if isMod then 100 else 20)\<rparr>"

definition refill :: "RateLimiter \<Rightarrow> int \<Rightarrow> RateLimiter" where
  "refill s now =
     (if now - lastRefill s \<ge> refillIntervalMs s
      then s\<lparr>tokens := maxTokens s, lastRefill := now\<rparr>
      else s)"

text \<open>\<^verbatim>\<open>tryConsume\<close> returns its boolean together with the updated limiter.\<close>

definition tryConsume :: "RateLimiter \<Rightarrow> int \<Rightarrow> bool \<times> RateLimiter" where
  "tryConsume s now =
     (let s' = refill s now in
      if tokens s' > 0 then (True, s'\<lparr>tokens := tokens s' - 1\<rparr>) else (False, s'))"

text \<open>
  Consecutive calls of \<^verbatim>\<open>tryConsume\<close>, one per clock reading of the list, as the loops of
  the unit tests make them; the answers are collected in call order.
\<close>

fun tryConsume_calls :: "RateLimiter \<Rightarrow> int list \<Rightarrow> bool list \<times> RateLimiter" where
  "tryConsume_calls s [] = ([], s)"
| "tryConsume_calls s (now # ts) =
     (let (ok, s') = tryConsume s now;
          (oks, s'') = tryConsume_calls s' ts
      in (ok # oks, s''))"

text \<open>
  The governor is shared by every flow that sends through the same chat manager. A flow
  suspended in \<^verbatim>\<open>waitForToken\<close> resumes on the limiter as the other flows have left it:
  in the meantime they may have called \<^verbatim>\<open>tryConsume\<close> (directly or from their own
  \<^verbatim>\<open>waitForToken\<close>), each call at its own clock reading, or \<^verbatim>\<open>setModeratorMode\<close>.
\<close>

datatype other_call = OtherTryConsume int | OtherSetModeratorMode bool

fun apply_other :: "RateLimiter \<Rightarrow> other_call \<Rightarrow> RateLimiter" where
  "apply_other s (OtherTryConsume t) = snd (tryConsume s t)"
| "apply_other s (OtherSetModeratorMode isMod) = setModeratorMode s isMod"

definition apply_others :: "RateLimiter \<Rightarrow> other_call list \<Rightarrow> RateLimiter" where
  "apply_others s calls = foldl apply_other s calls"

text \<open>
  The timer of the runtime: \<^verbatim>\<open>setTimeout(f, d)\<close> of Node.js runs \<open>f\<close> after \<open>d\<close> ms when
  \<open>1 \<le> d \<le> 2^31 - 1\<close>, and after 1 ms for every other delay.
\<close>

definition TIMEOUT_MAX :: int where
  "TIMEOUT_MAX = 2147483647"

definition setTimeout_delay :: "int \<Rightarrow> int" where
  "setTimeout_delay d = (if 1 \<le> d \<and> d \<le> TIMEOUT_MAX then d else 1)"

text \<open>
  What the environment does during one suspension of a flow: the time on the clock
  between the call of \<^verbatim>\<open>setTimeout\<close> and the next clock reading of the flow (a timer may
  fire late), and the calls of the other flows on the limiter, in order.
\<close>

type_synonym suspension = "int \<times> other_call list"

text \<open>
  \<^verbatim>\<open>waitForToken\<close> loops until \<^verbatim>\<open>tryConsume\<close> succeeds, so it may never return: it is a
  partial function, \<open>None\<close> standing for a promise that never resolves. \<open>now\<close> is the
  clock when the attempt is made; the synchronous code between the two clock readings
  of one iteration takes no time. The third argument accumulates the delays passed to
  \<^verbatim>\<open>setTimeout\<close> so far. The fourth argument lists what the environment does during the
  suspensions to come, one entry per suspension; when the list is used up the flow is
  alone on the limiter and the timer is punctual, resuming it \<open>setTimeout_delay d\<close> after
  the call. The result is the limiter, the clock at which the promise resolves, and the
  delays requested, in order.
\<close>

partial_function (option) waitForToken ::
  "RateLimiter \<Rightarrow> int \<Rightarrow> int list \<Rightarrow> suspension list \<Rightarrow>
   (RateLimiter \<times> int \<times> int list) option" where
  "waitForToken s now slept env =
     (let (ok, s') = tryConsume s now in
      if ok then Some (s', now, slept)
      else (let waitMs = refillIntervalMs s' - (now - lastRefill s');
                delay = max waitMs 100
            in (case env of
                  [] \<Rightarrow> waitForToken s' (now + setTimeout_delay delay) (slept @ [delay]) []
                | (elapsed, others) # env' \<Rightarrow>
                    waitForToken (apply_others s' others) (now + elapsed) (slept @ [delay]) env')))"

declare waitForToken.simps [code]



text \<open>Whether a call of another flow changes the capacity.\<close>

fun tier_switch :: "other_call \<Rightarrow> bool" where
  "tier_switch (OtherTryConsume t) \<longleftrightarrow> False"
| "tier_switch (OtherSetModeratorMode isMod) \<longleftrightarrow> True"


section \<open>Splitting a message (splitMessagePublic of the chat manager)\<close>

text \<open>
  A JavaScript string is a sequence of UTF-16 code units; \<^verbatim>\<open>length\<close>, \<^verbatim>\<open>slice\<close> and
  \<^verbatim>\<open>lastIndexOf\<close> count code units.
\<close>

type_synonym code_unit = "16 word"
type_synonym jsstring = "code_unit list"

definition SPACE :: code_unit where
  "SPACE = 0x20"

text \<open>
  The code units that \<^verbatim>\<open>trimStart\<close>, \<^verbatim>\<open>trim\<close> and the regular expression class \<^verbatim>\<open>\s\<close>
  treat as white space (ECMAScript WhiteSpace and LineTerminator).
\<close>

definition isWhiteSpace :: "code_unit \<Rightarrow> bool" where
  "isWhiteSpace c \<longleftrightarrow>
     c \<in> set [0x09, 0x0A, 0x0B, 0x0C, 0x0D, 0x20, 0xA0, 0x1680,
              0x2000, 0x2001, 0x2002, 0x2003, 0x2004, 0x2005, 0x2006, 0x2007, 0x2008,
              0x2009, 0x200A, 0x2028, 0x2029, 0x202F, 0x205F, 0x3000, 0xFEFF]"

definition trimStart :: "jsstring \<Rightarrow> jsstring" where
  "trimStart s = dropWhile isWhiteSpace s"

text \<open>
  \<^verbatim>\<open>s.lastIndexOf(c, pos)\<close> for a search string of the single code unit \<open>c\<close> and a
  position \<open>pos \<ge> 0\<close>: the largest index \<open>i \<le> pos\<close> with \<open>s[i] = c\<close>, or \<open>-1\<close>. The scan
  goes downwards from \<open>pos\<close>; positions beyond the end of the string match nothing, which
  is the clamping of the start position to the last index.
\<close>

fun lastIndexOf :: "jsstring \<Rightarrow> code_unit \<Rightarrow> nat \<Rightarrow> int" where
  "lastIndexOf s c 0 = (if 0 < length s \<and> s ! 0 = c then 0 else - 1)"
| "lastIndexOf s c (Suc k) =
     (if Suc k < length s \<and> s ! Suc k = c then int (Suc k) else lastIndexOf s c k)"

text \<open>
  The value of the variable \<^verbatim>\<open>splitAt\<close> when a chunk is cut in the loop body. The test
  \<^verbatim>\<open>splitAt < maxLen * 0.6\<close> compares an integer with a floating-point product; on
  the integers that a string length can be (below \<open>2^32\<close>) it holds exactly when
  \<open>10 * splitAt < 6 * maxLen\<close>: where \<open>6 * maxLen\<close> is a multiple of 10 the product rounds
  to the exact integer, and elsewhere the exact product is at least 0.2 away from every
  integer, much more than the rounding error.
\<close>

definition splitAt :: "jsstring \<Rightarrow> nat \<Rightarrow> int" where
  "splitAt remaining maxLen =
     (let i = lastIndexOf remaining SPACE maxLen
      in if 10 * i < 6 * int maxLen then int maxLen else i)"

text \<open>
  The \<^verbatim>\<open>while\<close> loop, with the array \<^verbatim>\<open>chunks\<close> as an accumulator. The loop does not
  terminate on every input (with \<open>maxLen = 0\<close> it can push empty chunks forever), so it is
  a partial function. The length limit \<open>maxLen\<close> is a natural number: negative and
  fractional limits are outside the model.
\<close>

partial_function (option) splitLoop ::
  "jsstring \<Rightarrow> nat \<Rightarrow> jsstring list \<Rightarrow> jsstring list option" where
  "splitLoop remaining maxLen chunks =
     (if length remaining > 0 then
        (if length remaining \<le> maxLen then Some (chunks @ [remaining])
         else splitLoop (trimStart (drop (nat (splitAt remaining maxLen)) remaining)) maxLen
                (chunks @ [take (nat (splitAt remaining maxLen)) remaining]))
      else Some chunks)"

declare splitLoop.simps [code]

definition splitMessagePublic :: "jsstring \<Rightarrow> nat \<Rightarrow> jsstring list option" where
  "splitMessagePublic text maxLen =
     (if length text \<le> maxLen then Some [text] else splitLoop text maxLen [])"

subsection \<open>The algorithm as the specification words it\<close>

text \<open>
  The specification's split point: the last space at or before index \<open>maxLen\<close> of the
  remaining text; when there is none, or it lies before \<open>0.6 * maxLen\<close>, the split is
  forced at \<open>maxLen\<close>.
\<close>

definition spec_last_space :: "jsstring \<Rightarrow> nat \<Rightarrow> nat option" where
  "spec_last_space remaining maxLen =
     (case filter (\<lambda>i. remaining ! i = SPACE) (rev [0..<min (Suc maxLen) (length remaining)]) of
        [] \<Rightarrow> None
      | i # _ \<Rightarrow> Some i)"

definition spec_split_point :: "jsstring \<Rightarrow> nat \<Rightarrow> nat" where
  "spec_split_point remaining maxLen =
     (case spec_last_space remaining maxLen of
        None \<Rightarrow> maxLen
      | Some i \<Rightarrow> if 10 * i < 6 * maxLen then maxLen else i)"

text \<open>
  Steps 2 and 3 of the specification, read literally: split at the split point, emit
  the prefix, strip the leading white space of the rest, and repeat until nothing
  remains. The specification states the algorithm for \<open>maxLen \<ge> 1\<close>; for \<open>maxLen = 0\<close>,
  where a step makes no progress, this function returns no chunks. With \<open>maxLen > 0\<close> a
  step removes at least one code unit, which is why the recursion terminates.
\<close>

function spec_chunks :: "nat \<Rightarrow> jsstring \<Rightarrow> jsstring list" where
  "spec_chunks maxLen remaining =
     (if maxLen = 0 \<or> remaining = [] then []
      else take (spec_split_point remaining maxLen) remaining #
           spec_chunks maxLen (trimStart (drop (spec_split_point remaining maxLen) remaining)))"
  by pat_completeness auto

termination spec_chunks
proof (relation "measure (\<lambda>(m, r). length r)")
  show "wf (measure (\<lambda>(m :: nat, r :: jsstring). length r))" by simp
next
  fix maxLen :: nat and remaining :: jsstring
  assume "\<not> (maxLen = 0 \<or> remaining = [])"
  then have m: "0 < maxLen" and r: "remaining \<noteq> []" by auto
  have "0 < spec_split_point remaining maxLen"
    using m by (auto simp: spec_split_point_def split: option.splits)
  then have "length (drop (spec_split_point remaining maxLen) remaining) < length remaining"
    using r by (cases remaining) auto
  moreover have "length (trimStart (drop (spec_split_point remaining maxLen) remaining))
      \<le> length (drop (spec_split_point remaining maxLen) remaining)"
    unfolding trimStart_def by (rule length_dropWhile_le)
  ultimately show "((maxLen, trimStart (drop (spec_split_point remaining maxLen) remaining)),
      (maxLen, remaining)) \<in> measure (\<lambda>(m, r). length r)"
    by simp
qed

declare spec_chunks.simps [simp del]

definition spec_split :: "jsstring \<Rightarrow> nat \<Rightarrow> jsstring list" where
  "spec_split text maxLen =
     (if length text \<le> maxLen then [text] else spec_chunks maxLen text)"

text \<open>
  The same steps with the rule that the code adds: the splitting goes on only while the
  remaining text is longer than \<open>maxLen\<close>, and a remainder of length at most \<open>maxLen\<close> is
  emitted whole as the last chunk.
\<close>

function spec_chunks_whole_tail :: "nat \<Rightarrow> jsstring \<Rightarrow> jsstring list" where
  "spec_chunks_whole_tail maxLen remaining =
     (if maxLen = 0 \<or> remaining = [] then []
      else if length remaining \<le> maxLen then [remaining]
      else take (spec_split_point remaining maxLen) remaining #
           spec_chunks_whole_tail maxLen
             (trimStart (drop (spec_split_point remaining maxLen) remaining)))"
  by pat_completeness auto

termination spec_chunks_whole_tail
proof (relation "measure (\<lambda>(m, r). length r)")
  show "wf (measure (\<lambda>(m :: nat, r :: jsstring). length r))" by simp
next
  fix maxLen :: nat and remaining :: jsstring
  assume "\<not> (maxLen = 0 \<or> remaining = [])"
  then have m: "0 < maxLen" and r: "remaining \<noteq> []" by auto
  have "0 < spec_split_point remaining maxLen"
    using m by (auto simp: spec_split_point_def split: option.splits)
  then have "length (drop (spec_split_point remaining maxLen) remaining) < length remaining"
    using r by (cases remaining) auto
  moreover have "length (trimStart (drop (spec_split_point remaining maxLen) remaining))
      \<le> length (drop (spec_split_point remaining maxLen) remaining)"
    unfolding trimStart_def by (rule length_dropWhile_le)
  ultimately show "((maxLen, trimStart (drop (spec_split_point remaining maxLen) remaining)),
      (maxLen, remaining)) \<in> measure (\<lambda>(m, r). length r)"
    by simp
qed

declare spec_chunks_whole_tail.simps [simp del]

definition spec_split_whole_tail :: "jsstring \<Rightarrow> nat \<Rightarrow> jsstring list" where
  "spec_split_whole_tail text maxLen =
     (if length text \<le> maxLen then [text] else spec_chunks_whole_tail maxLen text)"

subsection \<open>The round trip of the unit tests\<close>

text \<open>
  The unit test of the splitting compares
  \<^verbatim>\<open>chunks.join(" ").replace(/\s+/g, " ").trim()\<close> with the trimmed message.
\<close>

fun join_spaces :: "jsstring list \<Rightarrow> jsstring" where
  "join_spaces [] = []"
| "join_spaces [c] = c"
| "join_spaces (c # cs) = c @ SPACE # join_spaces cs"

text \<open>
  \<^verbatim>\<open>replace(/\s+/g, " ")\<close>: every maximal run of white space becomes one space. The flag
  tells whether the previous code unit was white space.
\<close>

fun collapse_from :: "bool \<Rightarrow> jsstring \<Rightarrow> jsstring" where
  "collapse_from in_ws [] = []"
| "collapse_from in_ws (c # cs) =
     (if isWhiteSpace c then (if in_ws then collapse_from True cs else SPACE # collapse_from True cs)
      else c # collapse_from False cs)"

definition collapse_whitespace :: "jsstring \<Rightarrow> jsstring" where
  "collapse_whitespace s = collapse_from False s"

definition trim :: "jsstring \<Rightarrow> jsstring" where
  "trim s = rev (dropWhile isWhiteSpace (rev (dropWhile isWhiteSpace s)))"

subsection \<open>Chunks and the white space between them\<close>

text \<open>
  The white space that \<^verbatim>\<open>trimStart\<close> strips after a chunk is cut is not part of any
  chunk. \<open>gaps_between chunks text\<close> reads, for each chunk in turn, the run of white
  space that follows it in \<open>text\<close>; \<open>weave\<close> puts chunks and gaps together again.
\<close>

fun weave :: "jsstring list \<Rightarrow> jsstring list \<Rightarrow> jsstring" where
  "weave (c # cs) (g # gs) = c @ g @ weave cs gs"
| "weave cs gs = []"

fun gaps_between :: "jsstring list \<Rightarrow> jsstring \<Rightarrow> jsstring list" where
  "gaps_between [] t = []"
| "gaps_between (c # cs) t =
     takeWhile isWhiteSpace (drop (length c) t) #
     gaps_between cs (dropWhile isWhiteSpace (drop (length c) t))"

text \<open>The word of the unit test, \<^verbatim>\<open>"word "\<close>, which it repeats 120 times.\<close>

definition word_space :: jsstring where
  "word_space = [0x77, 0x6F, 0x72, 0x64, 0x20]"

section \<open>Dispatching a message (sendMessage and sendWhisper of the chat manager)\<close>

text \<open>The constant of the chat manager: the longest message the chat accepts.\<close>

definition TWITCH_MAX_MSG_LENGTH :: nat where
  "TWITCH_MAX_MSG_LENGTH = 500"

text \<open>
  A dispatch either resolves or is rejected: with the error thrown when the chat client
  is missing, or with the error \<open>e\<close> of the transport, passed on as it is.
\<close>

datatype 'e failure = NotConnected | TransportFailure 'e

text \<open>
  What a dispatch does, in order: it obtains one admission from the rate limiter
  (\<^verbatim>\<open>waitForToken\<close> has resolved), or it hands one chunk for a target to the transport,
  which accepts it (\<open>None\<close>) or rejects it with an error.
\<close>

datatype ('t, 'e) event = Admission | Handed 't jsstring "'e option"

text \<open>
  The state of a dispatch: the rejection, if any; the events so far; the rate limiter;
  the clock; and the state of the network behind the transport.
\<close>

record ('t, 'e, 'w) dispatch =
  failure :: "'e failure option"
  events :: "('t, 'e) event list"
  limiter :: RateLimiter
  clock :: int
  world :: 'w

text \<open>
  The transport (\<^verbatim>\<open>chatClient.say\<close>, \<^verbatim>\<open>apiClient.whispers.sendWhisper\<close>) is an external
  collaborator: any function from the target, the chunk, the clock and the state of the
  network to its answer, the clock when the answer arrives and the new state.
\<close>

type_synonym ('t, 'e, 'w) transport = "'t \<Rightarrow> jsstring \<Rightarrow> int \<Rightarrow> 'w \<Rightarrow> 'e option \<times> int \<times> 'w"

text \<open>
  The loop \<^verbatim>\<open>for (const chunk of chunks)\<close> of \<^verbatim>\<open>sendMessage\<close> and \<^verbatim>\<open>sendWhisper\<close>: each
  iteration awaits \<^verbatim>\<open>waitForToken\<close> and then awaits the transport; a rejection of the
  transport leaves the loop. The result is \<open>None\<close> when \<^verbatim>\<open>waitForToken\<close> never resolves.
  One dispatch is followed, alone on its limiter: no other flow calls the limiter while
  this one is suspended, and the timer is punctual.
\<close>

fun sendChunks ::
  "('t, 'e, 'w) transport \<Rightarrow> 't \<Rightarrow> jsstring list \<Rightarrow> ('t, 'e, 'w) dispatch \<Rightarrow>
   ('t, 'e, 'w) dispatch option" where
  "sendChunks transport target [] d = Some d"
| "sendChunks transport target (chunk # chunks) d =
     (case waitForToken (limiter d) (clock d) [] [] of
        None \<Rightarrow> None
      | Some (lim, now, slept) \<Rightarrow>
          (case transport target chunk now (world d) of
             (Some e, now', w') \<Rightarrow>
               Some (d\<lparr>failure := Some (TransportFailure e),
                       events := events d @ [Admission, Handed target chunk (Some e)],
                       limiter := lim, clock := now', world := w'\<rparr>)
           | (None, now', w') \<Rightarrow>
               sendChunks transport target chunks
                 (d\<lparr>events := events d @ [Admission, Handed target chunk None],
                    limiter := lim, clock := now', world := w'\<rparr>)))"

text \<open>
  The fields of the chat manager that the sending reads: whether the chat client and the
  API client are set, the bot's user id, and the rate limiter.
\<close>

record TwitchChatManager =
  chatClient :: bool
  apiClient :: bool
  botUserId :: "jsstring option"
  rateLimiter :: RateLimiter

definition sendMessage ::
  "(jsstring, 'e, 'w) transport \<Rightarrow> TwitchChatManager \<Rightarrow> int \<Rightarrow> 'w \<Rightarrow> jsstring \<Rightarrow> jsstring \<Rightarrow>
   (jsstring, 'e, 'w) dispatch option" where
  "sendMessage say m now w channel text =
     (let d = \<lparr>failure = None, events = [], limiter = rateLimiter m, clock = now, world = w\<rparr> in
      if \<not> chatClient m then Some (d\<lparr>failure := Some NotConnected\<rparr>)
      else (case splitMessagePublic text TWITCH_MAX_MSG_LENGTH of
              None \<Rightarrow> None
            | Some chunks \<Rightarrow> sendChunks say channel chunks d))"

definition sendWhisper ::
  "(jsstring \<times> jsstring, 'e, 'w) transport \<Rightarrow> TwitchChatManager \<Rightarrow> int \<Rightarrow> 'w \<Rightarrow>
   jsstring \<Rightarrow> jsstring \<Rightarrow> jsstring \<Rightarrow> (jsstring \<times> jsstring, 'e, 'w) dispatch option" where
  "sendWhisper whisper m now w toUsername toUserId text =
     (let d = \<lparr>failure = None, events = [], limiter = rateLimiter m, clock = now, world = w\<rparr> in
      if apiClient m then
        (case botUserId m of
           None \<Rightarrow> Some d
         | Some botId \<Rightarrow>
             if botId = [] then Some d
             else (case splitMessagePublic text TWITCH_MAX_MSG_LENGTH of
                     None \<Rightarrow> None
                   | Some chunks \<Rightarrow> sendChunks whisper (botId, toUserId) chunks d))
      else Some d)"

text \<open>
  The events of a dispatch as the specification words them: for each chunk in order, one
  admission, then the chunk handed to the transport and accepted.
\<close>

definition spec_dispatch_events :: "'t \<Rightarrow> jsstring list \<Rightarrow> ('t, 'e) event list" where
  "spec_dispatch_events target chunks = concat (map (\<lambda>c. [Admission, Handed target c None]) chunks)"

text \<open>
  One step of a dispatch as the specification words it: first suspend on the admission,
  then hand the chunk to the transport. The step starts from the limiter, the clock and
  the network state that it is given; it returns the answer of the transport with the
  limiter as the admission left it and the clock and the network state as the transport
  left them.
\<close>

definition spec_admit_then_hand ::
  "('t, 'e, 'w) transport \<Rightarrow> 't \<Rightarrow> jsstring \<Rightarrow> RateLimiter \<times> int \<times> 'w \<Rightarrow>
   ('e option \<times> RateLimiter \<times> int \<times> 'w) option" where
  "spec_admit_then_hand transport target chunk st =
     (case st of (lim, now, w) \<Rightarrow>
        (case waitForToken lim now [] [] of
           None \<Rightarrow> None
         | Some (lim', t, slept) \<Rightarrow>
             (case transport target chunk t w of (res, now', w') \<Rightarrow> Some (res, lim', now', w'))))"

text \<open>
  The chunks sent strictly in order, one at a time: each step starts where the step
  before it ended. The result is the answers of the transport, in order, and the
  limiter, the clock and the network state after the last step.
\<close>

definition spec_send_in_order ::
  "('t, 'e, 'w) transport \<Rightarrow> 't \<Rightarrow> jsstring list \<Rightarrow> RateLimiter \<times> int \<times> 'w \<Rightarrow>
   ('e option list \<times> RateLimiter \<times> int \<times> 'w) option" where
  "spec_send_in_order transport target chunks st =
     foldl (\<lambda>acc chunk.
              case acc of
                None \<Rightarrow> None
              | Some (answers, st') \<Rightarrow>
                  (case spec_admit_then_hand transport target chunk st' of
                     None \<Rightarrow> None
                   | Some (res, st'') \<Rightarrow> Some (answers @ [res], st'')))
       (Some ([], st)) chunks"


text \<open>
  A connected manager with the default rate limiter, a transport that accepts every
  chunk and one that rejects the second chunk it is handed; both take 40 ms per call and
  count the calls in the state of the network.
\<close>

definition example_manager :: TwitchChatManager where
  "example_manager = \<lparr>chatClient = True, apiClient = True, botUserId = Some [0x31],
                      rateLimiter = RateLimiter_default 0\<rparr>"

definition accepting_transport :: "('t, nat, nat) transport" where
  "accepting_transport target chunk now n = (None, now + 40, Suc n)"




section \<open>Properties of the rate limiter\<close>

subsection \<open>One attempt\<close>

lemma tryConsume_same_window:
  "now - lastRefill s < refillIntervalMs s \<Longrightarrow>
   tryConsume s now =
     (if tokens s > 0 then (True, s\<lparr>tokens := tokens s - 1\<rparr>) else (False, s))"
  by (simp add: tryConsume_def refill_def)

lemma tryConsume_rollover:
  "refillIntervalMs s \<le> now - lastRefill s \<Longrightarrow>
   tryConsume s now =
     (if maxTokens s > 0 then (True, s\<lparr>tokens := maxTokens s - 1, lastRefill := now\<rparr>)
      else (False, s\<lparr>tokens := maxTokens s, lastRefill := now\<rparr>))"
  by (simp add: tryConsume_def refill_def)

lemma fst_tryConsume_calls_Cons:
  "fst (tryConsume_calls s (t # ts)) =
     fst (tryConsume s t) # fst (tryConsume_calls (snd (tryConsume s t)) ts)"
  by (simp add: case_prod_beta)

subsection \<open>Calls inside one window\<close>

text \<open>
  While no call rolls the window over, the answers are \<open>True\<close> until the tokens are used
  up and \<open>False\<close> from then on.
\<close>

lemma tryConsume_calls_same_window:
  "\<forall>t\<in>set ts. t - lastRefill s < refillIntervalMs s \<Longrightarrow> 0 \<le> tokens s \<Longrightarrow>
   fst (tryConsume_calls s ts) =
     replicate (min (length ts) (nat (tokens s))) True @
     replicate (length ts - nat (tokens s)) False"
proof (induction ts arbitrary: s)
  case Nil
  then show ?case by simp
next
  case (Cons t ts)
  have w: "t - lastRefill s < refillIntervalMs s" using Cons.prems by simp
  show ?case
  proof (cases "tokens s > 0")
    case True
    let ?s' = "s\<lparr>tokens := tokens s - 1\<rparr>"
    have step: "tryConsume s t = (True, ?s')"
      using w True by (simp add: tryConsume_same_window)
    have ih: "fst (tryConsume_calls ?s' ts) =
       replicate (min (length ts) (nat (tokens ?s'))) True @
       replicate (length ts - nat (tokens ?s')) False"
      using Cons.prems True by (intro Cons.IH) auto
    obtain k where k: "nat (tokens s) = Suc k"
      using True by (cases "nat (tokens s)") auto
    then have k': "nat (tokens s - 1) = k" by linarith
    show ?thesis using ih k k' by (simp only: fst_tryConsume_calls_Cons step) simp
  next
    case False
    then have z: "tokens s = 0" using Cons.prems by simp
    have step: "tryConsume s t = (False, s)"
      using w z by (simp add: tryConsume_same_window)
    have ih: "fst (tryConsume_calls s ts) =
       replicate (min (length ts) (nat (tokens s))) True @
       replicate (length ts - nat (tokens s)) False"
      using Cons.prems by (intro Cons.IH) auto
    show ?thesis using ih z by (simp only: fst_tryConsume_calls_Cons step) simp
  qed
qed

text \<open>
  A call that rolls the window over refills the bucket to the capacity first; the calls
  that follow inside the new window use it up.
\<close>

lemma tryConsume_calls_after_rollover:
  assumes rollover: "refillIntervalMs s \<le> t1 - lastRefill s"
    and window: "\<forall>t\<in>set ts. t - t1 < refillIntervalMs s"
    and cap: "0 \<le> maxTokens s"
  shows "fst (tryConsume_calls s (t1 # ts)) =
     replicate (min (Suc (length ts)) (nat (maxTokens s))) True @
     replicate (Suc (length ts) - nat (maxTokens s)) False"
proof (cases "0 < maxTokens s")
  case True
  let ?s' = "s\<lparr>tokens := maxTokens s - 1, lastRefill := t1\<rparr>"
  have step: "tryConsume s t1 = (True, ?s')"
    using rollover True by (simp add: tryConsume_rollover)
  have rest: "fst (tryConsume_calls ?s' ts) =
     replicate (min (length ts) (nat (tokens ?s'))) True @
     replicate (length ts - nat (tokens ?s')) False"
    using window True by (intro tryConsume_calls_same_window) auto
  obtain k where k: "nat (maxTokens s) = Suc k"
    using True by (cases "nat (maxTokens s)") auto
  then have k': "nat (maxTokens s - 1) = k" by linarith
  show ?thesis using rest k k' by (simp only: fst_tryConsume_calls_Cons step) simp
next
  case False
  then have z: "maxTokens s = 0" using cap by simp
  let ?s' = "s\<lparr>tokens := maxTokens s, lastRefill := t1\<rparr>"
  have step: "tryConsume s t1 = (False, ?s')"
    using rollover z by (simp add: tryConsume_rollover)
  have rest: "fst (tryConsume_calls ?s' ts) =
     replicate (min (length ts) (nat (tokens ?s'))) True @
     replicate (length ts - nat (tokens ?s')) False"
    using window z by (intro tryConsume_calls_same_window) auto
  show ?thesis using rest z by (simp only: fst_tryConsume_calls_Cons step) simp
qed

text \<open>
  Claim C1 as stated fails for a window in which the tier was switched: the tokens in
  the bucket are those of the old capacity until the next refill. A limiter constructed
  with capacity 20 and raised to 100 denies the 21st of 21 calls inside the window,
  although \<open>21 \<le> 100\<close>; a limiter constructed with capacity 100 and lowered to 20 admits
  the 21st call inside the window.
\<close>

theorem tryConsume_after_tier_switch_counterexample:
  "maxTokens (setModeratorMode (RateLimiter_new 20 30000 0) True) = 100 \<and>
   fst (tryConsume_calls (setModeratorMode (RateLimiter_new 20 30000 0) True)
          (replicate 21 1000)) = replicate 20 True @ [False] \<and>
   maxTokens (setModeratorMode (RateLimiter_new 100 30000 0) False) = 20 \<and>
   fst (tryConsume_calls (setModeratorMode (RateLimiter_new 100 30000 0) False)
          (replicate 21 1000)) = replicate 21 True"
  using tryConsume_calls_same_window
      [of "replicate 21 1000" "setModeratorMode (RateLimiter_new 20 30000 0) True"]
    tryConsume_calls_same_window
      [of "replicate 21 1000" "setModeratorMode (RateLimiter_new 100 30000 0) False"]
  by (simp add: setModeratorMode_def RateLimiter_new_def)

text \<open>
  Claim C1, amended. Let the capacity be \<open>c = maxTokens \<ge> 0\<close>, and take consecutive
  \<^verbatim>\<open>tryConsume\<close> calls that all fall into one window which begins with \<open>c\<close> tokens:
  either the bucket is full (\<open>tokens = maxTokens\<close>, as the constructor leaves it) and
  every call lies inside the current window, or the first call rolls the window over
  and the others lie inside the window it starts. Then \<open>n \<le> c\<close> calls all return true,
  and of \<open>c + 1\<close> calls the first \<open>c\<close> return true and the last one returns false.
\<close>

theorem tryConsume_admits_capacity_per_window:
  assumes cap: "0 \<le> maxTokens s"
  shows "(tokens s = maxTokens s \<and> (\<forall>t\<in>set ts. t - lastRefill s < refillIntervalMs s) \<longrightarrow>
            (length ts \<le> nat (maxTokens s) \<longrightarrow>
               fst (tryConsume_calls s ts) = replicate (length ts) True) \<and>
            (length ts = nat (maxTokens s) + 1 \<longrightarrow>
               fst (tryConsume_calls s ts) = replicate (nat (maxTokens s)) True @ [False])) \<and>
         (refillIntervalMs s \<le> t1 - lastRefill s \<and> (\<forall>t\<in>set ts. t - t1 < refillIntervalMs s) \<longrightarrow>
            (length ts + 1 \<le> nat (maxTokens s) \<longrightarrow>
               fst (tryConsume_calls s (t1 # ts)) = replicate (length ts + 1) True) \<and>
            (length ts = nat (maxTokens s) \<longrightarrow>
               fst (tryConsume_calls s (t1 # ts)) = replicate (nat (maxTokens s)) True @ [False]))"
proof (intro conjI impI)
  assume h: "tokens s = maxTokens s \<and> (\<forall>t\<in>set ts. t - lastRefill s < refillIntervalMs s)"
  then have eq: "fst (tryConsume_calls s ts) =
     replicate (min (length ts) (nat (tokens s))) True @
     replicate (length ts - nat (tokens s)) False"
    using cap by (intro tryConsume_calls_same_window) auto
  {
    assume "length ts \<le> nat (maxTokens s)"
    then show "fst (tryConsume_calls s ts) = replicate (length ts) True"
      using eq h by (simp add: min_absorb1)
  }
  {
    assume "length ts = nat (maxTokens s) + 1"
    then show "fst (tryConsume_calls s ts) = replicate (nat (maxTokens s)) True @ [False]"
      using eq h by simp
  }
next
  assume h: "refillIntervalMs s \<le> t1 - lastRefill s \<and> (\<forall>t\<in>set ts. t - t1 < refillIntervalMs s)"
  then have eq: "fst (tryConsume_calls s (t1 # ts)) =
     replicate (min (Suc (length ts)) (nat (maxTokens s))) True @
     replicate (Suc (length ts) - nat (maxTokens s)) False"
    using cap by (intro tryConsume_calls_after_rollover) auto
  {
    assume "length ts + 1 \<le> nat (maxTokens s)"
    then show "fst (tryConsume_calls s (t1 # ts)) = replicate (length ts + 1) True"
      unfolding eq by (simp add: min_absorb1)
  }
  {
    assume "length ts = nat (maxTokens s)"
    then show "fst (tryConsume_calls s (t1 # ts)) = replicate (nat (maxTokens s)) True @ [False]"
      unfolding eq by simp
  }
qed

theorem tryConsume_admits_capacity_per_window_witness:
  "(0::int) \<le> maxTokens (RateLimiter_new 20 30000 0) \<and>
   tokens (RateLimiter_new 20 30000 0) = maxTokens (RateLimiter_new 20 30000 0) \<and>
   fst (tryConsume_calls (RateLimiter_new 20 30000 0) (replicate 20 1000)) = replicate 20 True \<and>
   fst (tryConsume_calls (RateLimiter_new 20 30000 0) (replicate 21 1000)) =
     replicate 20 True @ [False] \<and>
   fst (tryConsume_calls ((RateLimiter_new 20 30000 0)\<lparr>tokens := 0\<rparr>) (30000 # replicate 19 30500))
     = replicate 20 True \<and>
   fst (tryConsume_calls ((RateLimiter_new 20 30000 0)\<lparr>tokens := 0\<rparr>) (30000 # replicate 20 30500))
     = replicate 20 True @ [False]"
  using tryConsume_admits_capacity_per_window
      [of "RateLimiter_new 20 30000 0" "replicate 20 1000" 0]
    tryConsume_admits_capacity_per_window
      [of "RateLimiter_new 20 30000 0" "replicate 21 1000" 0]
    tryConsume_admits_capacity_per_window
      [of "(RateLimiter_new 20 30000 0)\<lparr>tokens := 0\<rparr>" "replicate 19 30500" 30000]
    tryConsume_admits_capacity_per_window
      [of "(RateLimiter_new 20 30000 0)\<lparr>tokens := 0\<rparr>" "replicate 20 30500" 30000]
  by (simp add: RateLimiter_new_def)

subsection \<open>Switching the tier\<close>

text \<open>
  Claim C6. \<^verbatim>\<open>setModeratorMode(isMod)\<close> sets the capacity to 100 when \<open>isMod\<close> holds and
  to 20 otherwise, and changes no other field: the tokens, the start of the window and
  the window length stay as they were.
\<close>

theorem setModeratorMode_frame:
  "maxTokens (setModeratorMode s isMod) = (if isMod then 100 else 20) \<and>
   tokens (setModeratorMode s isMod) = tokens s \<and>
   lastRefill (setModeratorMode s isMod) = lastRefill s \<and>
   refillIntervalMs (setModeratorMode s isMod) = refillIntervalMs s"
  by (simp add: setModeratorMode_def)

text \<open>
  Claim C7. Let the tier be switched on any limiter, and let the next \<^verbatim>\<open>tryConsume\<close> call
  come at a clock reading \<open>t1\<close> that rolls the window over, the calls after it staying
  inside the new window. After \<^verbatim>\<open>setModeratorMode(true)\<close> exactly 100 calls succeed and
  the 101st is denied; after \<^verbatim>\<open>setModeratorMode(false)\<close> exactly 20 succeed and the 21st
  is denied. The limiter is arbitrary, so this covers one constructed with capacity 100.
\<close>

theorem setModeratorMode_capacity_after_rollover:
  assumes rollover: "refillIntervalMs s \<le> t1 - lastRefill s"
    and window: "\<forall>t\<in>set ts. t - t1 < refillIntervalMs s"
  shows "(length ts = 100 \<longrightarrow>
            fst (tryConsume_calls (setModeratorMode s True) (t1 # ts)) =
              replicate 100 True @ [False]) \<and>
         (length ts = 20 \<longrightarrow>
            fst (tryConsume_calls (setModeratorMode s False) (t1 # ts)) =
              replicate 20 True @ [False])"
proof -
  have calls: "fst (tryConsume_calls (setModeratorMode s isMod) (t1 # ts)) =
     replicate (min (Suc (length ts)) (nat (maxTokens (setModeratorMode s isMod)))) True @
     replicate (Suc (length ts) - nat (maxTokens (setModeratorMode s isMod))) False" for isMod
    using rollover window
    by (intro tryConsume_calls_after_rollover) (simp_all add: setModeratorMode_def)
  show ?thesis
  proof (intro conjI impI)
    assume "length ts = 100"
    then show "fst (tryConsume_calls (setModeratorMode s True) (t1 # ts)) =
        replicate 100 True @ [False]"
      using calls [of True] by (simp add: setModeratorMode_def)
  next
    assume "length ts = 20"
    then show "fst (tryConsume_calls (setModeratorMode s False) (t1 # ts)) =
        replicate 20 True @ [False]"
      using calls [of False] by (simp add: setModeratorMode_def)
  qed
qed

theorem setModeratorMode_capacity_after_rollover_witness:
  "fst (tryConsume_calls
          (setModeratorMode ((RateLimiter_new 20 30000 0)\<lparr>tokens := 0\<rparr>) True)
          (30000 # replicate 100 30001)) = replicate 100 True @ [False] \<and>
   fst (tryConsume_calls
          (setModeratorMode (RateLimiter_new 100 30000 0) False)
          (30000 # replicate 20 30001)) = replicate 20 True @ [False]"
  using setModeratorMode_capacity_after_rollover
      [of "(RateLimiter_new 20 30000 0)\<lparr>tokens := 0\<rparr>" 30000 "replicate 100 30001"]
    setModeratorMode_capacity_after_rollover
      [of "RateLimiter_new 100 30000 0" 30000 "replicate 20 30001"]
  by (simp add: RateLimiter_new_def)

subsection \<open>Waiting for a token\<close>

lemma waitForToken_available:
  "0 < tokens (refill s now) \<Longrightarrow>
   waitForToken s now slept env = Some (snd (tryConsume s now), now, slept)"
  by (subst waitForToken.simps) (simp add: tryConsume_def Let_def)

lemma waitForToken_denied_alone:
  "tryConsume s now = (False, s') \<Longrightarrow>
   waitForToken s now slept [] =
     waitForToken s'
       (now + setTimeout_delay (max (refillIntervalMs s' - (now - lastRefill s')) 100))
       (slept @ [max (refillIntervalMs s' - (now - lastRefill s')) 100]) []"
  by (subst waitForToken.simps) (simp add: Let_def)


lemma waitForToken_exhausted:
  assumes "tokens s \<le> 0" "now - lastRefill s < refillIntervalMs s" "0 < maxTokens s"
    and fits: "refillIntervalMs s - (now - lastRefill s) \<le> TIMEOUT_MAX"
  defines "d \<equiv> max (refillIntervalMs s - (now - lastRefill s)) 100"
  shows "waitForToken s now slept [] =
           Some (s\<lparr>tokens := maxTokens s - 1, lastRefill := now + d\<rparr>, now + d, slept @ [d])"
proof -
  have den: "tryConsume s now = (False, s)"
    using assms(1,2) by (simp add: tryConsume_same_window)
  have timer: "setTimeout_delay d = d"
    using fits unfolding d_def setTimeout_delay_def TIMEOUT_MAX_def by (simp add: max_def)
  have late: "refillIntervalMs s \<le> (now + d) - lastRefill s"
    unfolding d_def by linarith
  have adm: "tryConsume s (now + d) = (True, s\<lparr>tokens := maxTokens s - 1, lastRefill := now + d\<rparr>)"
    using late assms(3) by (simp add: tryConsume_rollover)
  have "0 < tokens (refill s (now + d))" using late assms(3) by (simp add: refill_def)
  then have "waitForToken s (now + d) (slept @ [d]) [] =
      Some (snd (tryConsume s (now + d)), now + d, slept @ [d])"
    by (rule waitForToken_available)
  then show ?thesis using waitForToken_denied_alone [OF den, of slept] adm timer
    by (simp add: d_def)
qed

text \<open>
  A delay above \<open>TIMEOUT_MAX\<close> makes the flow retry every millisecond until the remaining
  wait fits the timer; the last sleep then ends exactly at the end of the window.
\<close>

lemma waitForToken_exhausted_alone:
  assumes "tokens s \<le> 0" "now - lastRefill s < refillIntervalMs s" "0 < maxTokens s"
  shows "\<exists>t sl. waitForToken s now slept [] =
           Some (s\<lparr>tokens := maxTokens s - 1, lastRefill := t\<rparr>, t, slept @ sl) \<and>
           lastRefill s + refillIntervalMs s \<le> t \<and>
           t \<le> max (lastRefill s + refillIntervalMs s) (now + 100)"
  using assms(2)
proof (induction "nat (refillIntervalMs s - (now - lastRefill s) - TIMEOUT_MAX)"
    arbitrary: now slept)
  case 0
  then have fits: "refillIntervalMs s - (now - lastRefill s) \<le> TIMEOUT_MAX" by simp
  let ?d = "max (refillIntervalMs s - (now - lastRefill s)) 100"
  have "waitForToken s now slept [] =
      Some (s\<lparr>tokens := maxTokens s - 1, lastRefill := now + ?d\<rparr>, now + ?d, slept @ [?d])"
    using assms(1) "0.prems" assms(3) fits by (rule waitForToken_exhausted)
  moreover have "lastRefill s + refillIntervalMs s \<le> now + ?d" by linarith
  moreover have "now + ?d \<le> max (lastRefill s + refillIntervalMs s) (now + 100)" by linarith
  ultimately show ?case by blast
next
  case (Suc k)
  let ?w = "refillIntervalMs s - (now - lastRefill s)"
  have big: "TIMEOUT_MAX < ?w" using Suc.hyps(2) by linarith
  have den: "tryConsume s now = (False, s)"
    using assms(1) Suc.prems by (simp add: tryConsume_same_window)
  have timer: "setTimeout_delay (max ?w 100) = 1"
    using big unfolding setTimeout_delay_def TIMEOUT_MAX_def by simp
  have step: "waitForToken s now slept [] = waitForToken s (now + 1) (slept @ [max ?w 100]) []"
    using waitForToken_denied_alone [OF den, of slept] timer by simp
  have k: "k = nat (refillIntervalMs s - (now + 1 - lastRefill s) - TIMEOUT_MAX)"
    using Suc.hyps(2) by linarith
  have w: "now + 1 - lastRefill s < refillIntervalMs s"
    using big unfolding TIMEOUT_MAX_def by linarith
  from Suc.hyps(1) [OF k w, of "slept @ [max ?w 100]"]
  obtain t sl where run: "waitForToken s (now + 1) (slept @ [max ?w 100]) [] =
           Some (s\<lparr>tokens := maxTokens s - 1, lastRefill := t\<rparr>, t, (slept @ [max ?w 100]) @ sl)"
    and lo: "lastRefill s + refillIntervalMs s \<le> t"
    and hi: "t \<le> max (lastRefill s + refillIntervalMs s) (now + 1 + 100)"
    by blast
  have "now + 1 + 100 \<le> lastRefill s + refillIntervalMs s"
    using big unfolding TIMEOUT_MAX_def by linarith
  then have hi': "t \<le> max (lastRefill s + refillIntervalMs s) (now + 100)" using hi by linarith
  have "waitForToken s now slept [] =
      Some (s\<lparr>tokens := maxTokens s - 1, lastRefill := t\<rparr>, t, slept @ (max ?w 100 # sl))"
    using step run by simp
  then show ?case using lo hi' by blast
qed

text \<open>
  Alone on the limiter and with a punctual timer, a flow waiting on a limiter of positive
  capacity is always admitted.
\<close>

lemma waitForToken_resolves:
  assumes pos: "0 < maxTokens s"
  shows "\<exists>s' t sl. waitForToken s now slept [] = Some (s', t, slept @ sl) \<and> now \<le> t \<and>
           maxTokens s' = maxTokens s \<and> refillIntervalMs s' = refillIntervalMs s"
proof (cases "0 < tokens (refill s now)")
  case True
  have "waitForToken s now slept [] = Some (snd (tryConsume s now), now, slept @ [])"
    using waitForToken_available [OF True] by simp
  moreover have "maxTokens (snd (tryConsume s now)) = maxTokens s"
    "refillIntervalMs (snd (tryConsume s now)) = refillIntervalMs s"
    by (simp_all add: tryConsume_def refill_def Let_def)
  ultimately show ?thesis by blast
next
  case False
  then have w: "now - lastRefill s < refillIntervalMs s" and e: "tokens s \<le> 0"
    using pos by (auto simp: refill_def split: if_splits)
  obtain t sl where run: "waitForToken s now slept [] =
           Some (s\<lparr>tokens := maxTokens s - 1, lastRefill := t\<rparr>, t, slept @ sl)"
    and lo: "lastRefill s + refillIntervalMs s \<le> t"
    using waitForToken_exhausted_alone [OF e w pos, of slept] by blast
  have "now \<le> t" using lo w by linarith
  then show ?thesis using run by force
qed

text \<open>
  A property of the limiter that every own attempt and every call of the other flows
  preserves still holds when the promise resolves.
\<close>

lemma apply_others_invariant:
  assumes "\<And>s c. c \<in> set calls \<Longrightarrow> P s \<Longrightarrow> P (apply_other s c)" and "P s"
  shows "P (apply_others s calls)"
  using assms unfolding apply_others_def
  by (induction calls arbitrary: s) auto

lemma waitForToken_invariant:
  assumes step: "\<And>s now. P s \<Longrightarrow> P (snd (tryConsume s now))"
    and run: "waitForToken s0 now0 slept0 env0 = Some r0"
  shows "P s0 \<and> (\<forall>susp\<in>set env0. \<forall>c\<in>set (snd susp). \<forall>s. P s \<longrightarrow> P (apply_other s c))
         \<longrightarrow> P (fst r0)"
  using run
proof (rule waitForToken.raw_induct [rotated 1, where P = "\<lambda>s now slept env r.
    P s \<and> (\<forall>susp\<in>set env. \<forall>c\<in>set (snd susp). \<forall>s. P s \<longrightarrow> P (apply_other s c))
         \<longrightarrow> P (fst r)"])
  fix wft s now slept env r
  assume IH: "\<And>s now slept env r. wft s now slept env = Some r \<Longrightarrow>
      P s \<and> (\<forall>susp\<in>set env. \<forall>c\<in>set (snd susp). \<forall>s. P s \<longrightarrow> P (apply_other s c))
         \<longrightarrow> P (fst r)"
    and body: "(let (ok, s') = tryConsume s now in
      if ok then Some (s', now, slept)
      else (let waitMs = refillIntervalMs s' - (now - lastRefill s');
                delay = max waitMs 100
            in (case env of
                  [] \<Rightarrow> wft s' (now + setTimeout_delay delay) (slept @ [delay]) []
                | (elapsed, others) # env' \<Rightarrow>
                    wft (apply_others s' others) (now + elapsed) (slept @ [delay]) env'))) = Some r"
  show "P s \<and> (\<forall>susp\<in>set env. \<forall>c\<in>set (snd susp). \<forall>s. P s \<longrightarrow> P (apply_other s c))
         \<longrightarrow> P (fst r)"
  proof
    assume h: "P s \<and> (\<forall>susp\<in>set env. \<forall>c\<in>set (snd susp). \<forall>s. P s \<longrightarrow> P (apply_other s c))"
    obtain ok s' where tc: "tryConsume s now = (ok, s')" by (cases "tryConsume s now")
    have P': "P s'" using step [of s now] h tc by simp
    show "P (fst r)"
    proof (cases ok)
      case True
      then show ?thesis using body tc P' by auto
    next
      case False
      show ?thesis
      proof (cases env)
        case Nil
        then have "wft s' (now + setTimeout_delay (max (refillIntervalMs s' - (now - lastRefill s')) 100))
                   (slept @ [max (refillIntervalMs s' - (now - lastRefill s')) 100]) [] = Some r"
          using body tc False by (simp add: Let_def)
        from IH [OF this] show ?thesis using P' by simp
      next
        case (Cons susp env')
        obtain elapsed others where susp: "susp = (elapsed, others)" by (cases susp)
        have run': "wft (apply_others s' others) (now + elapsed)
                   (slept @ [max (refillIntervalMs s' - (now - lastRefill s')) 100]) env' = Some r"
          using body tc False Cons susp by (simp add: Let_def)
        have "P (apply_others s' others)"
          using h P' Cons susp by (intro apply_others_invariant [where P = P]) auto
        moreover have "\<forall>susp\<in>set env'. \<forall>c\<in>set (snd susp). \<forall>s. P s \<longrightarrow> P (apply_other s c)"
          using h Cons by simp
        ultimately show ?thesis using IH [OF run'] by blast
      qed
    qed
  qed
qed





lemma waitForToken_example_run:
  "waitForToken \<lparr>tokens = 0, lastRefill = 0, maxTokens = 1, refillIntervalMs = 30000\<rparr> 250 []
     [(29750, [OtherTryConsume 30000])] =
   Some (\<lparr>tokens = 0, lastRefill = 60000, maxTokens = 1, refillIntervalMs = 30000\<rparr>,
         60000, [29750, 30000])"
  by code_simp






subsection \<open>Bounds on the tokens\<close>

text \<open>
  Claim C8 as stated fails: lowering the tier leaves more tokens than the new capacity.
  A limiter constructed with capacity 100 holds 100 tokens; after
  \<^verbatim>\<open>setModeratorMode(false)\<close> its capacity is 20 and its tokens are still 100.
\<close>

theorem tokens_within_capacity_counterexample:
  "\<not> (0 \<le> tokens (setModeratorMode (RateLimiter_new 100 30000 0) False) \<and>
      tokens (setModeratorMode (RateLimiter_new 100 30000 0) False)
        \<le> maxTokens (setModeratorMode (RateLimiter_new 100 30000 0) False))"
  by (simp add: setModeratorMode_def RateLimiter_new_def)

text \<open>
  Claim C8, amended. For a limiter constructed with a capacity \<open>c \<ge> 0\<close>, the lower bound
  \<open>0 \<le> tokens\<close> (with \<open>0 \<le> maxTokens\<close>) holds at construction and is preserved by
  \<^verbatim>\<open>tryConsume\<close>, \<^verbatim>\<open>waitForToken\<close> (whatever the other flows do meanwhile) and
  \<^verbatim>\<open>setModeratorMode\<close>. The upper bound \<open>tokens \<le> maxTokens\<close> holds at construction and
  is preserved by \<^verbatim>\<open>tryConsume\<close> and \<^verbatim>\<open>waitForToken\<close> (alone, or while the other flows
  only call \<^verbatim>\<open>tryConsume\<close>); \<^verbatim>\<open>setModeratorMode(isMod)\<close> keeps it exactly when the
  current tokens are at most the new capacity (100 if \<open>isMod\<close>, else 20).
\<close>

theorem token_bounds_preserved:
  "(0 \<le> c \<longrightarrow>
      0 \<le> tokens (RateLimiter_new c interval t0) \<and>
      0 \<le> maxTokens (RateLimiter_new c interval t0) \<and>
      tokens (RateLimiter_new c interval t0) \<le> maxTokens (RateLimiter_new c interval t0)) \<and>
   (0 \<le> tokens s \<and> 0 \<le> maxTokens s \<longrightarrow>
      0 \<le> tokens (snd (tryConsume s now)) \<and> 0 \<le> maxTokens (snd (tryConsume s now)) \<and>
      0 \<le> tokens (setModeratorMode s isMod) \<and> 0 \<le> maxTokens (setModeratorMode s isMod) \<and>
      (\<forall>r. waitForToken s now slept env = Some r \<longrightarrow>
             0 \<le> tokens (fst r) \<and> 0 \<le> maxTokens (fst r))) \<and>
   (tokens s \<le> maxTokens s \<longrightarrow>
      tokens (snd (tryConsume s now)) \<le> maxTokens (snd (tryConsume s now)) \<and>
      (\<forall>r. waitForToken s now slept [] = Some r \<longrightarrow> tokens (fst r) \<le> maxTokens (fst r)) \<and>
      (\<forall>r. list_all (\<lambda>susp. list_all (\<lambda>c. \<not> tier_switch c) (snd susp)) env \<and>
           waitForToken s now slept env = Some r \<longrightarrow> tokens (fst r) \<le> maxTokens (fst r))) \<and>
   ((tokens (setModeratorMode s isMod) \<le> maxTokens (setModeratorMode s isMod)) =
      (tokens s \<le> (if isMod then 100 else 20)))"
proof -
  have nonneg: "0 \<le> tokens (fst r) \<and> 0 \<le> maxTokens (fst r)"
    if r: "waitForToken s now slept env = Some r" and i: "0 \<le> tokens s \<and> 0 \<le> maxTokens s" for r
  proof -
    have other: "0 \<le> tokens (apply_other s c) \<and> 0 \<le> maxTokens (apply_other s c)"
      if "0 \<le> tokens s \<and> 0 \<le> maxTokens s" for s c
      using that
      by (cases c) (auto simp: tryConsume_def refill_def Let_def setModeratorMode_def)
    have "(0 \<le> tokens s \<and> 0 \<le> maxTokens s) \<and>
          (\<forall>susp\<in>set env. \<forall>c\<in>set (snd susp). \<forall>s. 0 \<le> tokens s \<and> 0 \<le> maxTokens s \<longrightarrow>
              0 \<le> tokens (apply_other s c) \<and> 0 \<le> maxTokens (apply_other s c)) \<longrightarrow>
          (0 \<le> tokens (fst r) \<and> 0 \<le> maxTokens (fst r))"
      by (rule waitForToken_invariant
            [where P = "\<lambda>s::RateLimiter. 0 \<le> tokens s \<and> 0 \<le> maxTokens s", OF _ r])
         (auto simp: tryConsume_def refill_def Let_def)
    then show ?thesis using i other by blast
  qed
  have within: "tokens (fst r) \<le> maxTokens (fst r)"
    if r: "waitForToken s now slept env' = Some r" and i: "tokens s \<le> maxTokens s"
      and e: "list_all (\<lambda>susp. list_all (\<lambda>c. \<not> tier_switch c) (snd susp)) env'" for r env'
  proof -
    have other: "tokens (apply_other s c) \<le> maxTokens (apply_other s c)"
      if "tokens s \<le> maxTokens s" "\<not> tier_switch c" for s c
      using that by (cases c) (auto simp: tryConsume_def refill_def Let_def)
    have "tokens s \<le> maxTokens s \<and>
          (\<forall>susp\<in>set env'. \<forall>c\<in>set (snd susp). \<forall>s. tokens s \<le> maxTokens s \<longrightarrow>
              tokens (apply_other s c) \<le> maxTokens (apply_other s c)) \<longrightarrow>
          tokens (fst r) \<le> maxTokens (fst r)"
      by (rule waitForToken_invariant
            [where P = "\<lambda>s::RateLimiter. tokens s \<le> maxTokens s", OF _ r])
         (auto simp: tryConsume_def refill_def Let_def)
    moreover have "\<forall>susp\<in>set env'. \<forall>c\<in>set (snd susp). \<not> tier_switch c"
      using e by (auto simp: list_all_iff)
    ultimately show ?thesis using i other by blast
  qed
  show ?thesis
  proof (intro conjI impI allI)
    fix r assume "0 \<le> tokens s \<and> 0 \<le> maxTokens s" "waitForToken s now slept env = Some r"
    then show "0 \<le> tokens (fst r)" "0 \<le> maxTokens (fst r)" using nonneg by blast+
  next
    fix r assume "tokens s \<le> maxTokens s" "waitForToken s now slept [] = Some r"
    then show "tokens (fst r) \<le> maxTokens (fst r)" using within [of "[]" r] by simp
  next
    fix r assume "tokens s \<le> maxTokens s"
      "list_all (\<lambda>susp. list_all (\<lambda>c. \<not> tier_switch c) (snd susp)) env \<and>
           waitForToken s now slept env = Some r"
    then show "tokens (fst r) \<le> maxTokens (fst r)" using within [of env r] by simp
  qed (auto simp: tryConsume_def refill_def Let_def setModeratorMode_def RateLimiter_new_def)
qed


theorem token_bounds_preserved_witness:
  "(0::int) \<le> 20 \<and>
   0 \<le> tokens (RateLimiter_new 20 30000 0) \<and>
   tokens (RateLimiter_new 20 30000 0) \<le> maxTokens (RateLimiter_new 20 30000 0) \<and>
   0 \<le> tokens (snd (tryConsume (RateLimiter_new 20 30000 0) 5)) \<and>
   tokens (snd (tryConsume (RateLimiter_new 20 30000 0) 5))
     \<le> maxTokens (snd (tryConsume (RateLimiter_new 20 30000 0) 5)) \<and>
   (\<exists>r. waitForToken (RateLimiter_new 20 30000 0) 5 [] [] = Some r \<and>
        0 \<le> tokens (fst r) \<and> tokens (fst r) \<le> maxTokens (fst r)) \<and>
   list_all (\<lambda>susp. list_all (\<lambda>c. \<not> tier_switch c) (snd susp))
     [(29750 :: int, [OtherTryConsume 30000])] \<and>
   (\<exists>r. waitForToken \<lparr>tokens = 0, lastRefill = 0, maxTokens = 1, refillIntervalMs = 30000\<rparr>
          250 [] [(29750, [OtherTryConsume 30000])] = Some r \<and>
        0 \<le> tokens (fst r) \<and> 0 \<le> maxTokens (fst r) \<and> tokens (fst r) \<le> maxTokens (fst r)) \<and>
   tokens (RateLimiter_new 20 30000 0) \<le> (if False then 100 else 20) \<and>
   tokens (setModeratorMode (RateLimiter_new 20 30000 0) False)
     \<le> maxTokens (setModeratorMode (RateLimiter_new 20 30000 0) False)"
proof -
  let ?S = "\<lparr>tokens = 0, lastRefill = 0, maxTokens = 1, refillIntervalMs = 30000\<rparr>"
  let ?env = "[(29750 :: int, [OtherTryConsume 30000])]"
  note alone = token_bounds_preserved
      [where c = 20 and interval = 30000 and ?t0.0 = 0 and s = "RateLimiter_new 20 30000 0"
         and now = 5 and slept = "[]" and isMod = False and env = "[]"]
  note shared = token_bounds_preserved
      [where c = 20 and interval = 30000 and ?t0.0 = 0 and s = ?S
         and now = 250 and slept = "[]" and isMod = False and env = ?env]
  have 1: "(0::int) \<le> 20 \<and>
   0 \<le> tokens (RateLimiter_new 20 30000 0) \<and>
   tokens (RateLimiter_new 20 30000 0) \<le> maxTokens (RateLimiter_new 20 30000 0) \<and>
   0 \<le> tokens (snd (tryConsume (RateLimiter_new 20 30000 0) 5)) \<and>
   tokens (snd (tryConsume (RateLimiter_new 20 30000 0) 5))
     \<le> maxTokens (snd (tryConsume (RateLimiter_new 20 30000 0) 5)) \<and>
   (\<exists>r. waitForToken (RateLimiter_new 20 30000 0) 5 [] [] = Some r \<and>
        0 \<le> tokens (fst r) \<and> tokens (fst r) \<le> maxTokens (fst r)) \<and>
   tokens (RateLimiter_new 20 30000 0) \<le> (if False then 100 else 20) \<and>
   tokens (setModeratorMode (RateLimiter_new 20 30000 0) False)
     \<le> maxTokens (setModeratorMode (RateLimiter_new 20 30000 0) False)"
    using alone waitForToken_available [of "RateLimiter_new 20 30000 0" 5 "[]" "[]"]
    by (auto simp add: RateLimiter_new_def refill_def)
  have quiet: "list_all (\<lambda>susp. list_all (\<lambda>c. \<not> tier_switch c) (snd susp)) ?env" by simp
  have "\<forall>r. waitForToken ?S 250 [] ?env = Some r \<longrightarrow>
          0 \<le> tokens (fst r) \<and> 0 \<le> maxTokens (fst r) \<and> tokens (fst r) \<le> maxTokens (fst r)"
    using shared quiet by simp
  then have 2: "\<exists>r. waitForToken ?S 250 [] ?env = Some r \<and>
        0 \<le> tokens (fst r) \<and> 0 \<le> maxTokens (fst r) \<and> tokens (fst r) \<le> maxTokens (fst r)"
    using waitForToken_example_run by blast
  from 1 quiet 2 show ?thesis by (elim conjE, intro conjI) assumption+
qed

section \<open>Properties of the splitting\<close>

subsection \<open>The scan for the last space\<close>

lemma lastIndexOf_bounds: "- 1 \<le> lastIndexOf s c m \<and> lastIndexOf s c m \<le> int m"
  by (induction m) auto

lemma lastIndexOf_filter:
  "lastIndexOf s c m =
     (case filter (\<lambda>i. s ! i = c) (rev [0..<min (Suc m) (length s)]) of
        [] \<Rightarrow> - 1 | i # _ \<Rightarrow> int i)"
proof (induction m)
  case 0
  show ?case by (cases s) auto
next
  case (Suc k)
  show ?case
  proof (cases "Suc k < length s")
    case True
    then have m: "min (Suc (Suc k)) (length s) = Suc (Suc k)" "min (Suc k) (length s) = Suc k"
      by auto
    show ?thesis using Suc True by (simp add: m del: upt_Suc) (simp)
  next
    case False
    then have "min (Suc (Suc k)) (length s) = min (Suc k) (length s)" by auto
    then show ?thesis using Suc False by (simp del: upt_Suc)
  qed
qed

lemma lastIndexOf_none: "c \<notin> set s \<Longrightarrow> lastIndexOf s c m = - 1"
  by (induction m) auto

lemma splitAt_spec: "splitAt r m = int (spec_split_point r m)"
  by (simp add: splitAt_def spec_split_point_def spec_last_space_def lastIndexOf_filter Let_def
        split: list.splits)

lemma splitAt_bounds: "0 < m \<Longrightarrow> 1 \<le> splitAt r m \<and> splitAt r m \<le> int m"
  using lastIndexOf_bounds [of r SPACE m] by (auto simp: splitAt_def Let_def)

lemma spec_split_point_pos: "0 < m \<Longrightarrow> 0 < spec_split_point r m"
  using splitAt_bounds [of m r] by (simp add: splitAt_spec)

lemma spec_split_point_le: "spec_split_point r m \<le> m"
  using lastIndexOf_bounds [of r SPACE m] splitAt_spec [of r m]
  by (auto simp: splitAt_def Let_def split: if_splits)

lemma trimStart_drop_shorter:
  assumes "0 < k" "r \<noteq> []"
  shows "length (trimStart (drop k r)) < length r"
proof -
  have "length (drop k r) < length r" using assms by (cases r) auto
  moreover have "length (trimStart (drop k r)) \<le> length (drop k r)"
    unfolding trimStart_def by (rule length_dropWhile_le)
  ultimately show ?thesis by linarith
qed

text \<open>
  The loop of the code computes the chunks of the amended rendering, appended to the
  chunks it has already pushed.
\<close>

lemma splitLoop_whole_tail:
  "0 < m \<Longrightarrow> splitLoop r m acc = Some (acc @ spec_chunks_whole_tail m r)"
proof (induction "length r" arbitrary: r acc rule: less_induct)
  case less
  show ?case
  proof (cases "r = []")
    case True
    then show ?thesis
      by (subst splitLoop.simps, subst spec_chunks_whole_tail.simps) simp
  next
    case False
    show ?thesis
    proof (cases "length r \<le> m")
      case True
      then show ?thesis using False less.prems
        by (subst splitLoop.simps, subst spec_chunks_whole_tail.simps) simp
    next
      case long: False
      let ?k = "spec_split_point r m"
      let ?r' = "trimStart (drop ?k r)"
      have k: "0 < ?k" using less.prems by (rule spec_split_point_pos)
      have "length ?r' < length r" using k False by (rule trimStart_drop_shorter)
      then have ih: "splitLoop ?r' m (acc @ [take ?k r]) =
          Some ((acc @ [take ?k r]) @ spec_chunks_whole_tail m ?r')"
        using less.prems by (intro less.hyps) auto
      have "splitLoop r m acc = splitLoop ?r' m (acc @ [take ?k r])"
        using False long by (subst splitLoop.simps) (simp add: splitAt_spec)
      moreover have "spec_chunks_whole_tail m r = take ?k r # spec_chunks_whole_tail m ?r'"
        using False long less.prems by (subst spec_chunks_whole_tail.simps) simp
      ultimately show ?thesis using ih by simp
    qed
  qed
qed

lemma lastIndexOf_hit:
  "lastIndexOf s c m = int i \<Longrightarrow>
     i < length s \<and> s ! i = c \<and> (\<forall>j. i < j \<and> j \<le> m \<and> j < length s \<longrightarrow> s ! j \<noteq> c)"
proof (induction m)
  case 0
  then show ?case by (simp split: if_splits)
next
  case (Suc k)
  show ?case
  proof (cases "Suc k < length s \<and> s ! Suc k = c")
    case True
    then have "lastIndexOf s c (Suc k) = int (Suc k)" by simp
    then have "i = Suc k" using Suc.prems by linarith
    then show ?thesis using True by auto
  next
    case False
    then have "lastIndexOf s c (Suc k) = lastIndexOf s c k" by auto
    then have ih: "i < length s \<and> s ! i = c \<and>
        (\<forall>j. i < j \<and> j \<le> k \<and> j < length s \<longrightarrow> s ! j \<noteq> c)"
      using Suc by simp
    have "s ! j \<noteq> c" if j: "i < j \<and> j \<le> Suc k \<and> j < length s" for j
    proof (cases "j = Suc k")
      case True
      then show ?thesis using False j by blast
    next
      case False
      then have "j \<le> k" using j by linarith
      then show ?thesis using ih j by blast
    qed
    then show ?thesis using ih by blast
  qed
qed

lemma lastIndexOf_miss:
  "lastIndexOf s c m < 0 \<Longrightarrow> j \<le> m \<Longrightarrow> j < length s \<Longrightarrow> s ! j \<noteq> c"
proof (induction m)
  case 0
  then show ?case by (simp split: if_splits)
next
  case (Suc k)
  show ?case
  proof (cases "Suc k < length s \<and> s ! Suc k = c")
    case True
    then have "lastIndexOf s c (Suc k) = int (Suc k)" by simp
    then show ?thesis using Suc.prems(1) by linarith
  next
    case False
    then have eq: "lastIndexOf s c (Suc k) = lastIndexOf s c k" by auto
    show ?thesis
    proof (cases "j = Suc k")
      case True
      then show ?thesis using False Suc.prems(3) by blast
    next
      case False
      then have "j \<le> k" using Suc.prems(2) by linarith
      then show ?thesis using Suc.IH Suc.prems eq by simp
    qed
  qed
qed

text \<open>The split point, characterised without reference to the scan.\<close>

lemma splitAt_cases:
  assumes long: "m < length r"
  shows "(\<exists>k. splitAt r m = int k \<and> k \<le> m \<and> r ! k = SPACE \<and> 6 * m \<le> 10 * k \<and>
             (\<forall>j. k < j \<and> j \<le> m \<longrightarrow> r ! j \<noteq> SPACE)) \<or>
         (splitAt r m = int m \<and> (\<forall>j. j \<le> m \<and> r ! j = SPACE \<longrightarrow> 10 * j < 6 * m))"
proof (cases "10 * lastIndexOf r SPACE m < 6 * int m")
  case early: True
  then have sa: "splitAt r m = int m" by (simp add: splitAt_def)
  have "10 * j < 6 * m" if j: "j \<le> m \<and> r ! j = SPACE" for j
  proof (cases "lastIndexOf r SPACE m < 0")
    case True
    have "j < length r" using j long by linarith
    then have "r ! j \<noteq> SPACE" using lastIndexOf_miss [OF True, of j] j by simp
    then show ?thesis using j by simp
  next
    case False
    define i where "i = nat (lastIndexOf r SPACE m)"
    have i: "lastIndexOf r SPACE m = int i" using False by (simp add: i_def)
    have above: "\<forall>j. i < j \<and> j \<le> m \<and> j < length r \<longrightarrow> r ! j \<noteq> SPACE"
      using lastIndexOf_hit [OF i] by simp
    have small: "10 * i < 6 * m" using early i by linarith
    have "j < length r" using j long by linarith
    then have "\<not> i < j" using above j by blast
    then show ?thesis using small by linarith
  qed
  then show ?thesis using sa by simp
next
  case False
  then have sa: "splitAt r m = lastIndexOf r SPACE m" by (simp add: splitAt_def)
  have nn: "0 \<le> lastIndexOf r SPACE m" using False by linarith
  define i where "i = nat (lastIndexOf r SPACE m)"
  have i: "lastIndexOf r SPACE m = int i" using nn by (simp add: i_def)
  have hit: "i < length r \<and> r ! i = SPACE \<and>
     (\<forall>j. i < j \<and> j \<le> m \<and> j < length r \<longrightarrow> r ! j \<noteq> SPACE)"
    using lastIndexOf_hit [OF i] by simp
  have le: "i \<le> m" using lastIndexOf_bounds [of r SPACE m] i by linarith
  have big: "6 * m \<le> 10 * i" using False i by linarith
  have no: "r ! j \<noteq> SPACE" if j: "i < j \<and> j \<le> m" for j
  proof -
    have "j < length r" using j long by linarith
    then show ?thesis using hit j by blast
  qed
  have "splitAt r m = int i \<and> i \<le> m \<and> r ! i = SPACE \<and> 6 * m \<le> 10 * i \<and>
             (\<forall>j. i < j \<and> j \<le> m \<longrightarrow> r ! j \<noteq> SPACE)"
    using sa i le big hit no by simp
  then show ?thesis by blast
qed

lemma spec_chunks_whole_tail_lengths:
  "\<forall>c \<in> set (spec_chunks_whole_tail m r). length c \<le> m"
proof (induction m r rule: spec_chunks_whole_tail.induct)
  case (1 m r)
  show ?case
  proof (cases "m = 0 \<or> r = []")
    case True
    then show ?thesis by (subst spec_chunks_whole_tail.simps) simp
  next
    case False
    show ?thesis
    proof (cases "length r \<le> m")
      case True
      then show ?thesis using False by (subst spec_chunks_whole_tail.simps) simp
    next
      case long: False
      have "\<forall>c \<in> set (spec_chunks_whole_tail m (trimStart (drop (spec_split_point r m) r))). length c \<le> m"
        using "1.IH" False long by simp
      moreover have "length (take (spec_split_point r m) r) \<le> m"
        using spec_split_point_le [of r m] by simp
      ultimately show ?thesis using False long
        by (subst spec_chunks_whole_tail.simps) simp
    qed
  qed
qed

lemma splitMessagePublic_whole_tail:
  "0 < m \<Longrightarrow> splitMessagePublic t m = Some (spec_split_whole_tail t m)"
  by (simp add: splitMessagePublic_def spec_split_whole_tail_def splitLoop_whole_tail)

subsection \<open>Claim C3\<close>

text \<open>
  Claim C3 as stated fails: the code stops splitting as soon as the remaining text fits
  into one chunk, while the algorithm of the claim goes on splitting at the last space
  until nothing remains. With \<open>maxLen = 10\<close> and the 18 code units
  \<^verbatim>\<open>xxxxxxx aaaaaaa bb\<close> the code returns \<^verbatim>\<open>xxxxxxx\<close> and \<^verbatim>\<open>aaaaaaa bb\<close>; the algorithm as
  worded splits the remainder \<^verbatim>\<open>aaaaaaa bb\<close> once more, at its space at index 7, which is
  not below \<open>0.6 * 10\<close>.
\<close>

theorem splitMessagePublic_keeps_short_remainder_whole:
  "splitMessagePublic
     [0x78, 0x78, 0x78, 0x78, 0x78, 0x78, 0x78, 0x20,
      0x61, 0x61, 0x61, 0x61, 0x61, 0x61, 0x61, 0x20, 0x62, 0x62] 10 =
     Some [[0x78, 0x78, 0x78, 0x78, 0x78, 0x78, 0x78],
           [0x61, 0x61, 0x61, 0x61, 0x61, 0x61, 0x61, 0x20, 0x62, 0x62]] \<and>
   spec_split
     [0x78, 0x78, 0x78, 0x78, 0x78, 0x78, 0x78, 0x20,
      0x61, 0x61, 0x61, 0x61, 0x61, 0x61, 0x61, 0x20, 0x62, 0x62] 10 =
     [[0x78, 0x78, 0x78, 0x78, 0x78, 0x78, 0x78],
      [0x61, 0x61, 0x61, 0x61, 0x61, 0x61, 0x61],
      [0x62, 0x62]]"
  by code_simp

text \<open>
  Claim C3, amended. For \<open>maxLen \<ge> 1\<close>: a text of length at most \<open>maxLen\<close> is returned
  as the single chunk; otherwise, while the remaining text is longer than \<open>maxLen\<close>, it
  is split at the last space at or before index \<open>maxLen\<close>, or at \<open>maxLen\<close> itself when
  that space lies before \<open>0.6 * maxLen\<close> or does not exist, and the leading white space of
  the rest is stripped; a non-empty remainder of length at most \<open>maxLen\<close> is emitted whole
  as the last chunk. Every chunk has length at most \<open>maxLen\<close>.
\<close>

theorem splitMessagePublic_follows_amended_algorithm:
  assumes "1 \<le> maxLen"
  shows "splitMessagePublic text maxLen = Some (spec_split_whole_tail text maxLen) \<and>
         (length text \<le> maxLen \<longrightarrow> splitMessagePublic text maxLen = Some [text]) \<and>
         (maxLen < length remaining \<longrightarrow>
            (\<exists>k. splitAt remaining maxLen = int k \<and> k \<le> maxLen \<and> remaining ! k = SPACE \<and>
                 6 * maxLen \<le> 10 * k \<and>
                 (\<forall>j. k < j \<and> j \<le> maxLen \<longrightarrow> remaining ! j \<noteq> SPACE)) \<or>
            (splitAt remaining maxLen = int maxLen \<and>
             (\<forall>j. j \<le> maxLen \<and> remaining ! j = SPACE \<longrightarrow> 10 * j < 6 * maxLen))) \<and>
         (\<forall>c \<in> set (spec_split_whole_tail text maxLen). length c \<le> maxLen)"
proof (intro conjI impI)
  show "splitMessagePublic text maxLen = Some (spec_split_whole_tail text maxLen)"
    using assms by (intro splitMessagePublic_whole_tail) simp
next
  assume "length text \<le> maxLen"
  then show "splitMessagePublic text maxLen = Some [text]"
    by (simp add: splitMessagePublic_def)
next
  assume "maxLen < length remaining"
  then show "(\<exists>k. splitAt remaining maxLen = int k \<and> k \<le> maxLen \<and> remaining ! k = SPACE \<and>
                 6 * maxLen \<le> 10 * k \<and>
                 (\<forall>j. k < j \<and> j \<le> maxLen \<longrightarrow> remaining ! j \<noteq> SPACE)) \<or>
            (splitAt remaining maxLen = int maxLen \<and>
             (\<forall>j. j \<le> maxLen \<and> remaining ! j = SPACE \<longrightarrow> 10 * j < 6 * maxLen))"
    by (rule splitAt_cases)
next
  show "\<forall>c \<in> set (spec_split_whole_tail text maxLen). length c \<le> maxLen"
    using spec_chunks_whole_tail_lengths [of maxLen "text"]
    by (simp add: spec_split_whole_tail_def)
qed

theorem splitMessagePublic_follows_amended_algorithm_witness:
  "(1::nat) \<le> 10 \<and>
   splitMessagePublic
     [0x78, 0x78, 0x78, 0x78, 0x78, 0x78, 0x78, 0x20,
      0x61, 0x61, 0x61, 0x61, 0x61, 0x61, 0x61, 0x20, 0x62, 0x62] 10 =
     Some (spec_split_whole_tail
       [0x78, 0x78, 0x78, 0x78, 0x78, 0x78, 0x78, 0x20,
        0x61, 0x61, 0x61, 0x61, 0x61, 0x61, 0x61, 0x20, 0x62, 0x62] 10) \<and>
   spec_split_whole_tail
     [0x78, 0x78, 0x78, 0x78, 0x78, 0x78, 0x78, 0x20,
      0x61, 0x61, 0x61, 0x61, 0x61, 0x61, 0x61, 0x20, 0x62, 0x62] 10 =
     [[0x78, 0x78, 0x78, 0x78, 0x78, 0x78, 0x78],
      [0x61, 0x61, 0x61, 0x61, 0x61, 0x61, 0x61, 0x20, 0x62, 0x62]] \<and>
   length [0x61, 0x61, 0x61, 0x61, 0x61, 0x61, 0x61, 0x20, 0x62, 0x62 :: code_unit] \<le> 10 \<and>
   10 < length [0x78, 0x78, 0x78, 0x78, 0x78, 0x78, 0x78, 0x20,
                0x61, 0x61, 0x61, 0x61, 0x61, 0x61, 0x61, 0x20, 0x62, 0x62 :: code_unit] \<and>
   splitAt [0x78, 0x78, 0x78, 0x78, 0x78, 0x78, 0x78, 0x20,
            0x61, 0x61, 0x61, 0x61, 0x61, 0x61, 0x61, 0x20, 0x62, 0x62] 10 = 7 \<and>
   length [0x68 :: code_unit, 0x69] \<le> 10 \<and>
   splitMessagePublic [0x68, 0x69] 10 = Some [[0x68, 0x69]]"
proof -
  let ?X = "[0x78, 0x78, 0x78, 0x78, 0x78, 0x78, 0x78, 0x20,
             0x61, 0x61, 0x61, 0x61, 0x61, 0x61, 0x61, 0x20, 0x62, 0x62] :: jsstring"
  have chunks: "spec_split_whole_tail ?X 10 =
     [[0x78, 0x78, 0x78, 0x78, 0x78, 0x78, 0x78],
      [0x61, 0x61, 0x61, 0x61, 0x61, 0x61, 0x61, 0x20, 0x62, 0x62]]"
    by code_simp
  have at: "splitAt ?X 10 = 7" by code_simp
  have one: "(1::nat) \<le> 10" by simp
  have run: "splitMessagePublic ?X 10 = Some (spec_split_whole_tail ?X 10)"
    using splitMessagePublic_follows_amended_algorithm [OF one, of ?X ?X] by blast
  have "length [0x68 :: code_unit, 0x69] \<le> 10 \<longrightarrow>
      splitMessagePublic [0x68, 0x69] 10 = Some [[0x68, 0x69]]"
    using splitMessagePublic_follows_amended_algorithm [OF one, of "[0x68, 0x69]" ?X] by blast
  then have short: "splitMessagePublic [0x68, 0x69] 10 = Some [[0x68, 0x69]]" by simp
  show ?thesis
    by (intro conjI one run chunks at short) simp_all
qed

subsection \<open>Claim C10\<close>

lemma splitLoop_returns:
  "0 < m \<Longrightarrow> \<exists>chunks. splitLoop r m acc = Some chunks"
proof (induction "length r" arbitrary: r acc rule: less_induct)
  case less
  show ?case
  proof (cases "r = [] \<or> length r \<le> m")
    case True
    then show ?thesis by (subst splitLoop.simps) auto
  next
    case False
    let ?r' = "trimStart (drop (nat (splitAt r m)) r)"
    have "0 < nat (splitAt r m)" using splitAt_bounds [OF less.prems, of r] by simp
    then have "length ?r' < length r" using False by (intro trimStart_drop_shorter) auto
    then have "\<exists>chunks. splitLoop ?r' m (acc @ [take (nat (splitAt r m)) r]) = Some chunks"
      using less.prems by (intro less.hyps)
    moreover have "splitLoop r m acc = splitLoop ?r' m (acc @ [take (nat (splitAt r m)) r])"
      using False by (subst splitLoop.simps) simp
    ultimately show ?thesis by simp
  qed
qed

text \<open>
  Claim C10. For \<open>maxLen \<ge> 1\<close> \<^verbatim>\<open>splitMessagePublic\<close> returns a list of chunks on every
  text, and so does the loop from every state. A loop iteration that cuts a chunk (the
  remaining text is longer than \<open>maxLen\<close>) cuts at a split point between 1 and \<open>maxLen\<close>
  and leaves a strictly shorter remaining text.
\<close>

theorem splitMessagePublic_terminates:
  assumes "1 \<le> maxLen"
  shows "(\<exists>chunks. splitMessagePublic text maxLen = Some chunks) \<and>
         (\<exists>chunks. splitLoop remaining maxLen acc = Some chunks) \<and>
         1 \<le> splitAt remaining maxLen \<and> splitAt remaining maxLen \<le> int maxLen \<and>
         (remaining \<noteq> [] \<longrightarrow>
            length (trimStart (drop (nat (splitAt remaining maxLen)) remaining))
              < length remaining)"
proof (intro conjI impI)
  have m: "0 < maxLen" using assms by simp
  show "\<exists>chunks. splitMessagePublic text maxLen = Some chunks"
    using splitLoop_returns [OF m, of "text" "[]"] by (simp add: splitMessagePublic_def)
  show "\<exists>chunks. splitLoop remaining maxLen acc = Some chunks"
    using m by (rule splitLoop_returns)
  show "1 \<le> splitAt remaining maxLen" "splitAt remaining maxLen \<le> int maxLen"
    using splitAt_bounds [OF m, of remaining] by simp_all
  assume "remaining \<noteq> []"
  moreover have "0 < nat (splitAt remaining maxLen)"
    using splitAt_bounds [OF m, of remaining] by simp
  ultimately show "length (trimStart (drop (nat (splitAt remaining maxLen)) remaining))
      < length remaining"
    by (intro trimStart_drop_shorter)
qed

theorem splitMessagePublic_terminates_witness:
  "(1::nat) \<le> 3 \<and>
   (\<exists>chunks. splitMessagePublic [0x61, 0x62, 0x63, 0x64, 0x65, 0x66, 0x67] 3 = Some chunks) \<and>
   [0x61, 0x62, 0x63, 0x64 :: code_unit] \<noteq> [] \<and>
   length (trimStart (drop (nat (splitAt [0x61, 0x62, 0x63, 0x64] 3)) [0x61, 0x62, 0x63, 0x64]))
     < length [0x61, 0x62, 0x63, 0x64 :: code_unit]"
  using splitMessagePublic_terminates
      [of 3 "[0x61, 0x62, 0x63, 0x64, 0x65, 0x66, 0x67]" "[0x61, 0x62, 0x63, 0x64]"]
  by simp

subsection \<open>Chunks, gaps and the text\<close>

lemma splitAt_no_space: "SPACE \<notin> set r \<Longrightarrow> splitAt r m = int m"
  by (simp add: splitAt_def lastIndexOf_none)

lemma isWhiteSpace_SPACE: "isWhiteSpace SPACE"
  by (simp add: isWhiteSpace_def SPACE_def)

text \<open>Six hundred copies of one code unit that is not white space, cut at 500.\<close>

lemma splitMessagePublic_replicate_600:
  assumes "\<not> isWhiteSpace a"
  shows "splitMessagePublic (replicate 600 a) 500 = Some [replicate 500 a, replicate 100 a]"
proof -
  have a: "a \<noteq> SPACE" using assms isWhiteSpace_SPACE by auto
  have sa: "splitAt (replicate 600 a) 500 = 500"
    using a by (subst splitAt_no_space) auto
  have "splitLoop (replicate 600 a) 500 [] = splitLoop (replicate 100 a) 500 [replicate 500 a]"
    using assms by (subst splitLoop.simps) (simp add: sa trimStart_def)
  also have "\<dots> = Some [replicate 500 a, replicate 100 a]"
    by (subst splitLoop.simps) simp
  finally show ?thesis by (simp add: splitMessagePublic_def)
qed

lemma length_gaps_between: "length (gaps_between cs t) = length cs"
  by (induction cs arbitrary: t) auto

lemma gaps_between_whitespace:
  "g \<in> set (gaps_between cs t) \<Longrightarrow> c \<in> set g \<Longrightarrow> isWhiteSpace c"
  by (induction cs arbitrary: t) (auto dest: set_takeWhileD)

lemma gaps_between_subset:
  "g \<in> set (gaps_between cs t) \<Longrightarrow> set g \<subseteq> set t"
proof (induction cs arbitrary: t)
  case Nil
  then show ?case by simp
next
  case (Cons c cs)
  have a: "set (takeWhile isWhiteSpace (drop (length c) t)) \<subseteq> set t"
    using set_takeWhileD [of _ isWhiteSpace "drop (length c) t"] set_drop_subset [of "length c" t]
    by blast
  have b: "set (dropWhile isWhiteSpace (drop (length c) t)) \<subseteq> set t"
    using set_dropWhileD [of _ isWhiteSpace "drop (length c) t"] set_drop_subset [of "length c" t]
    by blast
  show ?case using Cons a b by auto
qed

lemma weave_spec_chunks_whole_tail:
  "0 < m \<Longrightarrow>
   weave (spec_chunks_whole_tail m r) (gaps_between (spec_chunks_whole_tail m r) r) = r"
proof (induction m r rule: spec_chunks_whole_tail.induct)
  case (1 m r)
  show ?case
  proof (cases "r = []")
    case True
    then show ?thesis by (subst (1 2) spec_chunks_whole_tail.simps) simp
  next
    case False
    show ?thesis
    proof (cases "length r \<le> m")
      case True
      then show ?thesis using False "1.prems"
        by (subst (1 2) spec_chunks_whole_tail.simps) simp
    next
      case long: False
      let ?k = "spec_split_point r m"
      let ?r' = "trimStart (drop ?k r)"
      have k: "min (length r) ?k = ?k" using spec_split_point_le [of r m] long by simp
      have ih: "weave (spec_chunks_whole_tail m ?r') (gaps_between (spec_chunks_whole_tail m ?r') ?r') = ?r'"
        using "1.IH" "1.prems" False long by simp
      have unfold: "spec_chunks_whole_tail m r = take ?k r # spec_chunks_whole_tail m ?r'"
        using False long "1.prems" by (subst spec_chunks_whole_tail.simps) simp
      have "weave (spec_chunks_whole_tail m r) (gaps_between (spec_chunks_whole_tail m r) r) =
          take ?k r @ takeWhile isWhiteSpace (drop ?k r) @ ?r'"
        unfolding unfold using ih by (simp add: k trimStart_def)
      also have "\<dots> = take ?k r @ drop ?k r"
        by (simp add: trimStart_def)
      finally show ?thesis by simp
    qed
  qed
qed

lemma spec_chunks_whole_tail_nonempty:
  "0 < m \<Longrightarrow> r \<noteq> [] \<Longrightarrow> spec_chunks_whole_tail m r \<noteq> []"
  by (subst spec_chunks_whole_tail.simps) simp

lemma weave_spec_split_whole_tail:
  "0 < m \<Longrightarrow>
   weave (spec_split_whole_tail t m) (gaps_between (spec_split_whole_tail t m) t) = t"
  by (simp add: spec_split_whole_tail_def weave_spec_chunks_whole_tail)

lemma weave_empty_gaps:
  "\<forall>g \<in> set gs. g = [] \<Longrightarrow> length gs = length cs \<Longrightarrow> weave cs gs = concat cs"
proof (induction cs arbitrary: gs)
  case Nil
  then show ?case by simp
next
  case (Cons c cs)
  then obtain g gs' where gs: "gs = g # gs'" by (cases gs) auto
  then show ?case using Cons by simp
qed

lemma trimStart_no_whitespace:
  "\<forall>c \<in> set r. \<not> isWhiteSpace c \<Longrightarrow> trimStart r = r"
  by (cases r) (simp_all add: trimStart_def)

lemma spec_split_whole_tail_no_whitespace:
  assumes m: "0 < m" and nows: "\<forall>c \<in> set t. \<not> isWhiteSpace c"
  shows "concat (spec_split_whole_tail t m) = t \<and>
         (m < length t \<longrightarrow> 2 \<le> length (spec_split_whole_tail t m))"
proof
  let ?cs = "spec_split_whole_tail t m"
  have "g = []" if g: "g \<in> set (gaps_between ?cs t)" for g
  proof (cases g)
    case Nil
    then show ?thesis .
  next
    case (Cons c g')
    then have "c \<in> set g" by simp
    then have "isWhiteSpace c" "c \<in> set t"
      using gaps_between_whitespace [OF g] gaps_between_subset [OF g] by auto
    then show ?thesis using nows by blast
  qed
  then have "weave ?cs (gaps_between ?cs t) = concat ?cs"
    by (intro weave_empty_gaps) (simp_all add: length_gaps_between)
  then show "concat ?cs = t" using weave_spec_split_whole_tail [OF m, of t] by simp
  show "m < length t \<longrightarrow> 2 \<le> length ?cs"
  proof
    assume long: "m < length t"
    let ?k = "spec_split_point t m"
    have t: "t \<noteq> []" using long by auto
    have "\<forall>c \<in> set (drop ?k t). \<not> isWhiteSpace c"
      using nows set_drop_subset [of ?k t] by blast
    then have r': "trimStart (drop ?k t) = drop ?k t" by (rule trimStart_no_whitespace)
    have "drop ?k t \<noteq> []" using spec_split_point_le [of t m] long by simp
    then have ne: "spec_chunks_whole_tail m (drop ?k t) \<noteq> []"
      using m by (intro spec_chunks_whole_tail_nonempty)
    have "spec_chunks_whole_tail m t = take ?k t # spec_chunks_whole_tail m (drop ?k t)"
      using long t m r' by (subst spec_chunks_whole_tail.simps) simp
    then have "length ?cs = Suc (length (spec_chunks_whole_tail m (drop ?k t)))"
      using long by (simp add: spec_split_whole_tail_def)
    moreover have "0 < length (spec_chunks_whole_tail m (drop ?k t))" using ne by simp
    ultimately show "2 \<le> length ?cs" by linarith
  qed
qed

subsection \<open>Collapsing white space and trimming\<close>

lemma collapse_from_append:
  "collapse_from b (u @ x) =
     collapse_from b u @ collapse_from (if u = [] then b else isWhiteSpace (last u)) x"
  by (induction u arbitrary: b) auto

lemma collapse_from_whitespace:
  "\<forall>c \<in> set g. isWhiteSpace c \<Longrightarrow>
   collapse_from b g = (if g = [] \<or> b then [] else [SPACE])"
proof (induction g arbitrary: b)
  case Nil
  then show ?case by simp
next
  case (Cons c g)
  then have "collapse_from True g = []" by simp
  then show ?case using Cons.prems by simp
qed

lemma trim_append_whitespace:
  assumes "\<forall>c \<in> set t. isWhiteSpace c"
  shows "trim (x @ t) = trim x"
proof (cases "\<forall>c \<in> set x. isWhiteSpace c")
  case True
  then have a: "\<forall>c \<in> set (x @ t). isWhiteSpace c" using assms by auto
  from a have 1: "dropWhile isWhiteSpace (x @ t) = []" unfolding dropWhile_eq_Nil_conv .
  from True have 2: "dropWhile isWhiteSpace x = []" unfolding dropWhile_eq_Nil_conv .
  show ?thesis unfolding trim_def 1 2 by simp
next
  case False
  then obtain y where "y \<in> set x" "\<not> isWhiteSpace y" by blast
  then have "dropWhile isWhiteSpace (x @ t) = dropWhile isWhiteSpace x @ t"
    by (rule dropWhile_append1)
  moreover have "dropWhile isWhiteSpace (rev t @ ys) = dropWhile isWhiteSpace ys" for ys
    using assms by (intro dropWhile_append2) auto
  ultimately show ?thesis by (simp add: trim_def)
qed

text \<open>
  Joining the chunks with single spaces where the text had non-empty runs of white
  space changes the collapsed text by at most one trailing space.
\<close>

lemma collapse_weave_join:
  assumes "length gs = length cs"
    and "\<forall>g \<in> set gs. \<forall>c \<in> set g. isWhiteSpace c"
    and "\<forall>g \<in> set (butlast gs). g \<noteq> []"
  shows "\<exists>t. (\<forall>c \<in> set t. isWhiteSpace c) \<and>
           collapse_from b (weave cs gs) = collapse_from b (join_spaces cs) @ t"
  using assms
proof (induction cs arbitrary: gs b rule: join_spaces.induct)
  case 1
  then show ?case by simp
next
  case (2 c)
  then obtain g where gs: "gs = [g]" by (cases gs) auto
  then have ws: "\<forall>x \<in> set g. isWhiteSpace x" using "2.prems" by simp
  have "collapse_from b (weave [c] gs) =
        collapse_from b c @ collapse_from (if c = [] then b else isWhiteSpace (last c)) g"
    using gs by (simp add: collapse_from_append)
  moreover have "\<forall>x \<in> set (collapse_from (if c = [] then b else isWhiteSpace (last c)) g).
      isWhiteSpace x"
    using collapse_from_whitespace [OF ws] by (simp add: isWhiteSpace_def SPACE_def)
  ultimately show ?case by auto
next
  case (3 c c' cs)
  then obtain g gs' where gs: "gs = g # gs'" by (cases gs) auto
  have len: "length gs' = length (c' # cs)" using "3.prems" gs by simp
  then have gs'ne: "gs' \<noteq> []" by auto
  have ws: "\<forall>x \<in> set g. isWhiteSpace x" and ws': "\<forall>g \<in> set gs'. \<forall>c \<in> set g. isWhiteSpace c"
    using "3.prems" gs by auto
  have g: "g \<noteq> []" using "3.prems"(3) gs gs'ne by simp
  have bl: "\<forall>g \<in> set (butlast gs'). g \<noteq> []" using "3.prems"(3) gs gs'ne by simp
  obtain t where t: "\<forall>x \<in> set t. isWhiteSpace x"
    and ih: "collapse_from True (weave (c' # cs) gs') = collapse_from True (join_spaces (c' # cs)) @ t"
    using "3.IH" [OF len ws' bl, of True] by blast
  let ?bc = "if c = [] then b else isWhiteSpace (last c)"
  have lastg: "isWhiteSpace (last g)" using ws g by simp
  have "collapse_from b (weave (c # c' # cs) gs) =
        collapse_from b c @ collapse_from ?bc g @ collapse_from True (weave (c' # cs) gs')"
    using gs g lastg by (simp add: collapse_from_append)
  also have "collapse_from ?bc g = collapse_from ?bc [SPACE]"
    using collapse_from_whitespace [OF ws, of ?bc] g by (simp add: isWhiteSpace_def SPACE_def)
  finally have lhs: "collapse_from b (weave (c # c' # cs) gs) =
        collapse_from b c @ collapse_from ?bc [SPACE] @ collapse_from True (join_spaces (c' # cs)) @ t"
    using ih by simp
  have "collapse_from b (join_spaces (c # c' # cs)) =
        collapse_from b (c @ [SPACE] @ join_spaces (c' # cs))" by simp
  also have "\<dots> = collapse_from b c @ collapse_from ?bc [SPACE] @
        collapse_from True (join_spaces (c' # cs))"
    by (simp only: collapse_from_append) (simp add: isWhiteSpace_def SPACE_def)
  finally have rhs: "collapse_from b (join_spaces (c # c' # cs)) =
        collapse_from b c @ collapse_from ?bc [SPACE] @ collapse_from True (join_spaces (c' # cs))" .
  show ?case using lhs rhs t by auto
qed

lemma rejoin_weave:
  assumes "length gs = length cs"
    and "\<forall>g \<in> set gs. \<forall>c \<in> set g. isWhiteSpace c"
    and "\<forall>g \<in> set (butlast gs). g \<noteq> []"
  shows "trim (collapse_whitespace (join_spaces cs)) = trim (collapse_whitespace (weave cs gs))"
proof -
  obtain t where "\<forall>c \<in> set t. isWhiteSpace c"
    and "collapse_from False (weave cs gs) = collapse_from False (join_spaces cs) @ t"
    using collapse_weave_join [OF assms, of False] by blast
  then show ?thesis by (simp add: collapse_whitespace_def trim_append_whitespace)
qed

lemma trim_no_outer_whitespace:
  assumes "xs \<noteq> []" "\<not> isWhiteSpace (hd xs)" "\<not> isWhiteSpace (last xs)"
  shows "trim xs = xs"
proof -
  have 1: "dropWhile isWhiteSpace xs = xs" using assms(1,2) by (cases xs) auto
  have "rev xs \<noteq> []" "\<not> isWhiteSpace (hd (rev xs))"
    using assms(1,3) by (simp_all add: hd_rev)
  then have 2: "dropWhile isWhiteSpace (rev xs) = rev xs" by (cases "rev xs") auto
  show ?thesis by (simp add: trim_def 1 2)
qed

lemma collapse_from_replicate:
  "\<not> isWhiteSpace x \<Longrightarrow> collapse_from b (replicate n x) = replicate n x"
  by (induction n arbitrary: b) auto

lemma filter_weave:
  "length gs = length cs \<Longrightarrow> \<forall>g \<in> set gs. \<forall>c \<in> set g. isWhiteSpace c \<Longrightarrow>
   filter (\<lambda>c. \<not> isWhiteSpace c) (weave cs gs) = filter (\<lambda>c. \<not> isWhiteSpace c) (concat cs)"
proof (induction cs arbitrary: gs)
  case Nil
  then show ?case by simp
next
  case (Cons c cs)
  then obtain g gs' where gs: "gs = g # gs'" by (cases gs) auto
  have "filter (\<lambda>c. \<not> isWhiteSpace c) g = []"
    using Cons.prems gs by (simp add: filter_empty_conv)
  then show ?case using Cons gs by simp
qed

subsection \<open>Claim C4\<close>

text \<open>
  Claim C4 as stated fails, in both halves. A text that contains spaces can still be cut
  inside a word: for \<^verbatim>\<open>"hi "\<close> followed by 600 times \<^verbatim>\<open>x\<close> the only space lies before
  \<open>0.6 * 500\<close>, the cut is forced at 500, and rejoining the two chunks with a space puts
  a space inside the word, so that the result differs from the trimmed text. And a text
  of 600 code units without any space can hold other white space: with a tab at index
  500 the cut is forced at 500, \<^verbatim>\<open>trimStart\<close> strips the tab, and the chunks concatenate
  to 599 code units.
\<close>

theorem split_round_trip_counterexample:
  "SPACE \<in> set (0x68 # 0x69 # 0x20 # replicate 600 0x78) \<and>
   splitMessagePublic (0x68 # 0x69 # 0x20 # replicate 600 0x78) 500 =
     Some [0x68 # 0x69 # 0x20 # replicate 497 0x78, replicate 103 0x78] \<and>
   trim (collapse_whitespace
          (join_spaces [0x68 # 0x69 # 0x20 # replicate 497 0x78, replicate 103 0x78]))
     \<noteq> trim (0x68 # 0x69 # 0x20 # replicate 600 0x78) \<and>
   SPACE \<notin> set (replicate 500 0x61 @ 0x09 # replicate 99 0x61) \<and>
   length (replicate 500 (0x61 :: code_unit) @ 0x09 # replicate 99 0x61) = 600 \<and>
   splitMessagePublic (replicate 500 0x61 @ 0x09 # replicate 99 0x61) 500 =
     Some [replicate 500 0x61, replicate 99 0x61] \<and>
   concat [replicate 500 0x61, replicate 99 0x61]
     \<noteq> replicate 500 (0x61 :: code_unit) @ 0x09 # replicate 99 0x61"
proof -
  let ?T = "0x68 # 0x69 # 0x20 # replicate 600 (0x78 :: code_unit)"
  let ?A = "0x68 # 0x69 # 0x20 # replicate 497 (0x78 :: code_unit)"
  let ?B = "replicate 103 (0x78 :: code_unit)"
  let ?U = "replicate 500 (0x61 :: code_unit) @ 0x09 # replicate 99 0x61"
  have x: "\<not> isWhiteSpace (0x78 :: code_unit)" "\<not> isWhiteSpace (0x68 :: code_unit)"
    "\<not> isWhiteSpace (0x69 :: code_unit)" "\<not> isWhiteSpace (0x61 :: code_unit)"
    "isWhiteSpace (0x09 :: code_unit)" "isWhiteSpace (0x20 :: code_unit)"
    by (simp_all add: isWhiteSpace_def)
  have far: "?T ! k \<noteq> SPACE" if "300 \<le> k" "k \<le> 500" for k
    using that by (simp add: nth_append SPACE_def)
  have saT: "splitAt ?T 500 = 500"
  proof -
    have "500 < length ?T" by simp
    from splitAt_cases [OF this] show ?thesis
    proof
      assume "\<exists>k. splitAt ?T 500 = int k \<and> k \<le> 500 \<and> ?T ! k = SPACE \<and> 6 * 500 \<le> 10 * k \<and>
             (\<forall>j. k < j \<and> j \<le> 500 \<longrightarrow> ?T ! j \<noteq> SPACE)"
      then obtain k where "k \<le> 500" "?T ! k = SPACE" "6 * 500 \<le> 10 * k" by blast
      then show ?thesis using far [of k] by simp
    next
      assume "splitAt ?T 500 = int 500 \<and> (\<forall>j. j \<le> 500 \<and> ?T ! j = SPACE \<longrightarrow> 10 * j < 6 * 500)"
      then show ?thesis by simp
    qed
  qed
  have "splitLoop ?T 500 [] = splitLoop ?B 500 [?A]"
    using x by (subst splitLoop.simps) (simp add: saT trimStart_def)
  also have "\<dots> = Some [?A, ?B]"
    by (subst splitLoop.simps) simp
  finally have splitT: "splitMessagePublic ?T 500 = Some [?A, ?B]"
    by (simp add: splitMessagePublic_def)
  let ?J = "?A @ SPACE # ?B"
  have "collapse_whitespace (join_spaces [?A, ?B]) = ?J"
    using x by (simp add: collapse_whitespace_def collapse_from_append collapse_from_replicate SPACE_def)
  moreover have "trim ?J = ?J"
    using x by (intro trim_no_outer_whitespace) simp_all
  moreover have "trim ?T = ?T"
    using x by (intro trim_no_outer_whitespace) simp_all
  moreover have "length ?J \<noteq> length ?T" by simp
  ultimately have differ: "trim (collapse_whitespace (join_spaces [?A, ?B])) \<noteq> trim ?T"
    by (metis (no_types))
  have saU: "splitAt ?U 500 = 500"
    by (subst splitAt_no_space) (auto simp: SPACE_def)
  have "splitLoop ?U 500 [] = splitLoop (replicate 99 0x61) 500 [replicate 500 0x61]"
    using x by (subst splitLoop.simps) (simp add: saU trimStart_def)
  also have "\<dots> = Some [replicate 500 0x61, replicate 99 0x61]"
    by (subst splitLoop.simps) simp
  finally have splitU: "splitMessagePublic ?U 500 = Some [replicate 500 0x61, replicate 99 0x61]"
    by (simp add: splitMessagePublic_def)
  have "length (concat [replicate 500 (0x61 :: code_unit), replicate 99 0x61]) \<noteq> length ?U"
    by simp
  then have lost: "concat [replicate 500 (0x61 :: code_unit), replicate 99 0x61] \<noteq> ?U"
    by (metis (no_types))
  show ?thesis using splitT differ splitU lost by (simp add: SPACE_def)
qed

text \<open>
  Claim C4, amended. For \<open>maxLen \<ge> 1\<close> the chunks rebuild the text once the white space
  stripped after each chunk is put back: the text is chunk, gap, chunk, gap and so on,
  every gap consisting of white space only; so the chunks hold the code units of the
  text that are not white space, all of them, once, in order. A text without any white
  space is the concatenation of its chunks, and gives at least two chunks when it is
  longer than \<open>maxLen\<close>. When every gap between two chunks is non-empty (no cut fell
  inside a word), rejoining the chunks with single spaces, collapsing white space and
  trimming gives the collapsed, trimmed text.
\<close>

theorem split_preserves_content:
  assumes "1 \<le> maxLen"
  shows "\<exists>chunks. splitMessagePublic text maxLen = Some chunks \<and>
     text = weave chunks (gaps_between chunks text) \<and>
     (\<forall>g \<in> set (gaps_between chunks text). \<forall>c \<in> set g. isWhiteSpace c) \<and>
     filter (\<lambda>c. \<not> isWhiteSpace c) (concat chunks) = filter (\<lambda>c. \<not> isWhiteSpace c) text \<and>
     ((\<forall>c \<in> set text. \<not> isWhiteSpace c) \<longrightarrow>
        concat chunks = text \<and> (maxLen < length text \<longrightarrow> 2 \<le> length chunks)) \<and>
     ((\<forall>g \<in> set (butlast (gaps_between chunks text)). g \<noteq> []) \<longrightarrow>
        trim (collapse_whitespace (join_spaces chunks)) = trim (collapse_whitespace text))"
proof -
  have m: "0 < maxLen" using assms by simp
  let ?cs = "spec_split_whole_tail text maxLen"
  let ?gs = "gaps_between ?cs text"
  have run: "splitMessagePublic text maxLen = Some ?cs"
    using m by (rule splitMessagePublic_whole_tail)
  have w: "weave ?cs ?gs = text" using m by (rule weave_spec_split_whole_tail)
  have len: "length ?gs = length ?cs" by (rule length_gaps_between)
  have ws: "\<forall>g \<in> set ?gs. \<forall>c \<in> set g. isWhiteSpace c"
    using gaps_between_whitespace by blast
  have f: "filter (\<lambda>c. \<not> isWhiteSpace c) (concat ?cs) = filter (\<lambda>c. \<not> isWhiteSpace c) text"
    using filter_weave [OF len ws] w by simp
  have a: "concat ?cs = text \<and> (maxLen < length text \<longrightarrow> 2 \<le> length ?cs)"
    if "\<forall>c \<in> set text. \<not> isWhiteSpace c"
    using m that by (rule spec_split_whole_tail_no_whitespace)
  have c: "trim (collapse_whitespace (join_spaces ?cs)) = trim (collapse_whitespace text)"
    if "\<forall>g \<in> set (butlast ?gs). g \<noteq> []"
    using rejoin_weave [OF len ws that] w by simp
  show ?thesis using run w ws f a c by (intro exI [of _ ?cs]) simp
qed

text \<open>The text of the unit test: 600 code units, cut at the space at index 499.\<close>

lemma split_repeated_word_chunks: "splitMessagePublic (concat (replicate 120 word_space)) 500 =
   Some [concat (replicate 99 word_space) @ [0x77, 0x6F, 0x72, 0x64],
         concat (replicate 20 word_space)]"
  by code_simp

lemma split_repeated_word_gaps: "gaps_between [concat (replicate 99 word_space) @ [0x77, 0x6F, 0x72, 0x64],
         concat (replicate 20 word_space)] (concat (replicate 120 word_space)) = [[SPACE], []]"
  by code_simp

lemma collapse_from_words:
  "collapse_from b (concat (replicate n word_space)) = concat (replicate n word_space)"
  by (induction n arbitrary: b) (simp_all add: word_space_def isWhiteSpace_def SPACE_def)


theorem split_preserves_content_witness:
  "(1::nat) \<le> 500 \<and>
   \<not> isWhiteSpace 0x61 \<and> 500 < length (replicate 600 (0x61 :: code_unit)) \<and>
   (\<exists>chunks. splitMessagePublic (replicate 600 0x61) 500 = Some chunks \<and>
      concat chunks = replicate 600 0x61 \<and> 2 \<le> length chunks) \<and>
   (\<exists>chunks. splitMessagePublic (concat (replicate 120 word_space)) 500 = Some chunks \<and>
      gaps_between chunks (concat (replicate 120 word_space)) = [[SPACE], []] \<and>
      trim (collapse_whitespace (join_spaces chunks)) = trim (concat (replicate 120 word_space)))"
proof -
  have a: "\<forall>c \<in> set (replicate 600 (0x61 :: code_unit)). \<not> isWhiteSpace c"
    by (simp add: isWhiteSpace_def)
  have 1: "\<exists>chunks. splitMessagePublic (replicate 600 0x61) 500 = Some chunks \<and>
      concat chunks = replicate 600 0x61 \<and> 2 \<le> length chunks"
    using split_preserves_content [of 500 "replicate 600 0x61"] a by auto
  let ?W = "concat (replicate 120 word_space)"
  obtain chunks where run: "splitMessagePublic ?W 500 = Some chunks"
    and c: "(\<forall>g \<in> set (butlast (gaps_between chunks ?W)). g \<noteq> []) \<longrightarrow>
        trim (collapse_whitespace (join_spaces chunks)) = trim (collapse_whitespace ?W)"
    using split_preserves_content [of 500 ?W] by auto
  have chunks: "chunks = [concat (replicate 99 word_space) @ [0x77, 0x6F, 0x72, 0x64],
         concat (replicate 20 word_space)]"
    using run split_repeated_word_chunks by simp
  have gaps: "gaps_between chunks ?W = [[SPACE], []]"
    unfolding chunks by (rule split_repeated_word_gaps)
  then have "trim (collapse_whitespace (join_spaces chunks)) = trim (collapse_whitespace ?W)"
    using c by simp
  then have "trim (collapse_whitespace (join_spaces chunks)) = trim ?W"
    by (simp add: collapse_whitespace_def collapse_from_words)
  moreover have "\<not> isWhiteSpace 0x61" by (simp add: isWhiteSpace_def)
  ultimately show ?thesis using 1 run gaps by simp
qed

section \<open>Properties of the dispatch\<close>

lemma waitForToken_in_window:
  "0 < tokens s \<Longrightarrow> now - lastRefill s < refillIntervalMs s \<Longrightarrow>
   waitForToken s now slept env = Some (s\<lparr>tokens := tokens s - 1\<rparr>, now, slept)"
  by (subst waitForToken.simps) (simp add: tryConsume_same_window)

lemma spec_dispatch_events_snoc:
  "spec_dispatch_events target (cs @ [c]) =
     spec_dispatch_events target cs @ [Admission, Handed target c None]"
  by (simp add: spec_dispatch_events_def)

lemma spec_dispatch_events_Cons:
  "spec_dispatch_events target (c # cs) =
     [Admission, Handed target c None] @ spec_dispatch_events target cs"
  by (simp add: spec_dispatch_events_def)


lemma splitMessagePublic_returns:
  "0 < m \<Longrightarrow> \<exists>chunks. splitMessagePublic t m = Some chunks"
  using splitLoop_returns [of m t "[]"] by (simp add: splitMessagePublic_def)




subsection \<open>The dispatch against the chunks sent in order\<close>

lemma spec_send_in_order_Nil:
  "spec_send_in_order transport target [] st = Some ([], st)"
  by (simp add: spec_send_in_order_def)

lemma spec_send_in_order_Cons:
  "spec_send_in_order transport target (c # cs) st =
     (case spec_admit_then_hand transport target c st of
        None \<Rightarrow> None
      | Some (res, st') \<Rightarrow>
          (case spec_send_in_order transport target cs st' of
             None \<Rightarrow> None
           | Some (answers, st'') \<Rightarrow> Some (res # answers, st'')))"
proof -
  define F where "F = (\<lambda>acc chunk.
              case acc of
                None \<Rightarrow> None
              | Some (answers, st') \<Rightarrow>
                  (case spec_admit_then_hand transport target chunk st' of
                     None \<Rightarrow> None
                   | Some (res, st'') \<Rightarrow> Some (answers @ [res], st'')))"
  have none: "foldl F None xs = None" for xs
    by (induction xs) (simp_all add: F_def)
  have acc: "foldl F (Some (as, s)) xs =
      (case foldl F (Some ([], s)) xs of
         None \<Rightarrow> None
       | Some (answers, s') \<Rightarrow> Some (as @ answers, s'))" for as s xs
  proof (induction xs arbitrary: as s)
    case Nil
    show ?case by simp
  next
    case (Cons x xs)
    show ?case
    proof (cases "spec_admit_then_hand transport target x s")
      case None
      then show ?thesis by (simp add: F_def none [unfolded F_def])
    next
      case (Some p)
      obtain res s' where p: "p = (res, s')" by (cases p)
      have 1: "foldl F (Some (as, s)) (x # xs) = foldl F (Some (as @ [res], s')) xs"
        using Some p by (simp add: F_def)
      have 2: "foldl F (Some ([], s)) (x # xs) = foldl F (Some ([res], s')) xs"
        using Some p by (simp add: F_def)
      show ?thesis
        unfolding 1 2 Cons.IH [of "as @ [res]" s'] Cons.IH [of "[res]" s']
        by (simp split: option.split)
    qed
  qed
  show ?thesis
  proof (cases "spec_admit_then_hand transport target c st")
    case None
    then show ?thesis
      unfolding spec_send_in_order_def F_def [symmetric]
      by (simp add: none) (simp add: F_def none [unfolded F_def])
  next
    case (Some p)
    obtain res st' where p: "p = (res, st')" by (cases p)
    have "foldl F (Some ([], st)) (c # cs) = foldl F (Some ([res], st')) cs"
      using Some p by (simp add: F_def)
    then show ?thesis
      unfolding spec_send_in_order_def F_def [symmetric]
      using Some p acc [of "[res]" st' cs] by (simp split: option.split)
  qed
qed

text \<open>Every answer of a run in order is an answer of the transport.\<close>

lemma spec_send_in_order_answers:
  "spec_send_in_order transport target cs st = Some (answers, st') \<Longrightarrow>
   \<forall>a \<in> set answers. \<exists>c t w. a = fst (transport target c t w)"
proof (induction cs arbitrary: st answers)
  case Nil
  then show ?case by (simp add: spec_send_in_order_Nil)
next
  case (Cons c cs)
  obtain res st1 where one: "spec_admit_then_hand transport target c st = Some (res, st1)"
    using Cons.prems by (auto simp: spec_send_in_order_Cons split: option.splits)
  obtain as where rest: "spec_send_in_order transport target cs st1 = Some (as, st')"
    and answers: "answers = res # as"
    using Cons.prems one by (auto simp: spec_send_in_order_Cons split: option.splits)
  have "\<exists>c t w. res = fst (transport target c t w)"
    using one by (auto simp: spec_admit_then_hand_def split: prod.splits option.splits)
        (metis fst_conv)
  then show ?case using Cons.IH [OF rest] answers by simp
qed

text \<open>
  The loop of the dispatch either runs through all the chunks in order, every one
  accepted, or stops after the first chunk that the transport rejects.
\<close>

lemma sendChunks_in_order:
  assumes "0 < maxTokens (limiter d)"
  shows "\<exists>r. sendChunks transport target chunks d = Some r \<and>
           ((spec_send_in_order transport target chunks (limiter d, clock d, world d) =
               Some (replicate (length chunks) None, (limiter r, clock r, world r)) \<and>
             failure r = failure d \<and>
             events r = events d @ spec_dispatch_events target chunks) \<or>
            (\<exists>i e. i < length chunks \<and>
               spec_send_in_order transport target (take (Suc i) chunks)
                   (limiter d, clock d, world d) =
                 Some (replicate i None @ [Some e], (limiter r, clock r, world r)) \<and>
               failure r = Some (TransportFailure e) \<and>
               events r = events d @ spec_dispatch_events target (take i chunks) @
                            [Admission, Handed target (chunks ! i) (Some e)]))"
  using assms
proof (induction chunks arbitrary: d)
  case Nil
  then show ?case by (simp add: spec_dispatch_events_def spec_send_in_order_Nil)
next
  case (Cons chunk chunks)
  obtain lim now slept where
    wt: "waitForToken (limiter d) (clock d) [] [] = Some (lim, now, slept)"
    and lim: "maxTokens lim = maxTokens (limiter d)"
    using waitForToken_resolves [OF Cons.prems, of "clock d" "[]"] by auto
  obtain res now' w' where tr: "transport target chunk now (world d) = (res, now', w')"
    by (cases "transport target chunk now (world d)")
  have one: "spec_admit_then_hand transport target chunk (limiter d, clock d, world d) =
      Some (res, lim, now', w')"
    using wt tr by (simp add: spec_admit_then_hand_def)
  show ?case
  proof (cases res)
    case (Some e)
    let ?r = "d\<lparr>failure := Some (TransportFailure e),
                 events := events d @ [Admission, Handed target chunk (Some e)],
                 limiter := lim, clock := now', world := w'\<rparr>"
    have run: "sendChunks transport target (chunk # chunks) d = Some ?r"
      using wt tr Some by simp
    have "0 < length (chunk # chunks) \<and>
          spec_send_in_order transport target (take (Suc 0) (chunk # chunks))
              (limiter d, clock d, world d) =
            Some (replicate 0 None @ [Some e], (limiter ?r, clock ?r, world ?r)) \<and>
          failure ?r = Some (TransportFailure e) \<and>
          events ?r = events d @ spec_dispatch_events target (take 0 (chunk # chunks)) @
                        [Admission, Handed target ((chunk # chunks) ! 0) (Some e)]"
      using one Some
      by (simp add: spec_dispatch_events_def spec_send_in_order_Cons spec_send_in_order_Nil)
    then show ?thesis using run by blast
  next
    case None
    let ?d' = "d\<lparr>events := events d @ [Admission, Handed target chunk None],
                  limiter := lim, clock := now', world := w'\<rparr>"
    have run: "sendChunks transport target (chunk # chunks) d =
               sendChunks transport target chunks ?d'"
      using wt tr None by simp
    have st: "(limiter ?d', clock ?d', world ?d') = (lim, now', w')" by simp
    have "0 < maxTokens (limiter ?d')" using lim Cons.prems by simp
    from Cons.IH [OF this] obtain r where r: "sendChunks transport target chunks ?d' = Some r"
      and alt: "(spec_send_in_order transport target chunks (limiter ?d', clock ?d', world ?d') =
               Some (replicate (length chunks) None, (limiter r, clock r, world r)) \<and>
             failure r = failure ?d' \<and>
             events r = events ?d' @ spec_dispatch_events target chunks) \<or>
            (\<exists>i e. i < length chunks \<and>
               spec_send_in_order transport target (take (Suc i) chunks)
                   (limiter ?d', clock ?d', world ?d') =
                 Some (replicate i None @ [Some e], (limiter r, clock r, world r)) \<and>
               failure r = Some (TransportFailure e) \<and>
               events r = events ?d' @ spec_dispatch_events target (take i chunks) @
                            [Admission, Handed target (chunks ! i) (Some e)])"
      by blast
    from alt show ?thesis
    proof
      assume a: "spec_send_in_order transport target chunks (limiter ?d', clock ?d', world ?d') =
               Some (replicate (length chunks) None, (limiter r, clock r, world r)) \<and>
             failure r = failure ?d' \<and>
             events r = events ?d' @ spec_dispatch_events target chunks"
      then have "spec_send_in_order transport target chunks (lim, now', w') =
               Some (replicate (length chunks) None, (limiter r, clock r, world r))"
        unfolding st by blast
      then have "spec_send_in_order transport target (chunk # chunks)
              (limiter d, clock d, world d) =
            Some (replicate (length (chunk # chunks)) None, (limiter r, clock r, world r))"
        using one None by (simp add: spec_send_in_order_Cons)
      moreover have "failure r = failure d \<and>
             events r = events d @ spec_dispatch_events target (chunk # chunks)"
        using a by (simp add: spec_dispatch_events_Cons)
      ultimately show ?thesis using run r by simp
    next
      assume "\<exists>i e. i < length chunks \<and>
               spec_send_in_order transport target (take (Suc i) chunks)
                   (limiter ?d', clock ?d', world ?d') =
                 Some (replicate i None @ [Some e], (limiter r, clock r, world r)) \<and>
               failure r = Some (TransportFailure e) \<and>
               events r = events ?d' @ spec_dispatch_events target (take i chunks) @
                            [Admission, Handed target (chunks ! i) (Some e)]"
      then obtain i e where i: "i < length chunks"
        and sp: "spec_send_in_order transport target (take (Suc i) chunks)
                   (limiter ?d', clock ?d', world ?d') =
                 Some (replicate i None @ [Some e], (limiter r, clock r, world r))"
        and f: "failure r = Some (TransportFailure e)"
        and ev: "events r = events ?d' @ spec_dispatch_events target (take i chunks) @
                            [Admission, Handed target (chunks ! i) (Some e)]"
        by blast
      have sp': "spec_send_in_order transport target (take (Suc i) chunks) (lim, now', w') =
                 Some (replicate i None @ [Some e], (limiter r, clock r, world r))"
        using sp unfolding st .
      have "spec_send_in_order transport target (take (Suc (Suc i)) (chunk # chunks))
              (limiter d, clock d, world d) =
            Some (replicate (Suc i) None @ [Some e], (limiter r, clock r, world r))"
        using one None sp' by (simp add: spec_send_in_order_Cons)
      then have "Suc i < length (chunk # chunks) \<and>
          spec_send_in_order transport target (take (Suc (Suc i)) (chunk # chunks))
              (limiter d, clock d, world d) =
            Some (replicate (Suc i) None @ [Some e], (limiter r, clock r, world r)) \<and>
          failure r = Some (TransportFailure e) \<and>
          events r = events d @ spec_dispatch_events target (take (Suc i) (chunk # chunks)) @
                        [Admission, Handed target ((chunk # chunks) ! Suc i) (Some e)]"
        using i f ev by (simp add: spec_dispatch_events_Cons)
      then show ?thesis using run r by (simp only:) blast
    qed
  qed
qed

text \<open>A transport that accepts whatever it is handed for the target never stops the loop.\<close>

lemma sendChunks_accepted:
  assumes pos: "0 < maxTokens (limiter d)"
    and accepts: "\<forall>c t w. fst (transport target c t w) = None"
  shows "\<exists>r. sendChunks transport target chunks d = Some r \<and>
           spec_send_in_order transport target chunks (limiter d, clock d, world d) =
             Some (replicate (length chunks) None, (limiter r, clock r, world r)) \<and>
           failure r = failure d \<and>
           events r = events d @ spec_dispatch_events target chunks"
proof -
  obtain r where run: "sendChunks transport target chunks d = Some r"
    and alt: "(spec_send_in_order transport target chunks (limiter d, clock d, world d) =
               Some (replicate (length chunks) None, (limiter r, clock r, world r)) \<and>
             failure r = failure d \<and>
             events r = events d @ spec_dispatch_events target chunks) \<or>
            (\<exists>i e. i < length chunks \<and>
               spec_send_in_order transport target (take (Suc i) chunks)
                   (limiter d, clock d, world d) =
                 Some (replicate i None @ [Some e], (limiter r, clock r, world r)) \<and>
               failure r = Some (TransportFailure e) \<and>
               events r = events d @ spec_dispatch_events target (take i chunks) @
                            [Admission, Handed target (chunks ! i) (Some e)])"
    using sendChunks_in_order [OF pos, of transport target chunks] by blast
  have "\<not> (\<exists>i e. spec_send_in_order transport target (take (Suc i) chunks)
                   (limiter d, clock d, world d) =
                 Some (replicate i None @ [Some e], (limiter r, clock r, world r)))"
  proof
    assume "\<exists>i e. spec_send_in_order transport target (take (Suc i) chunks)
                   (limiter d, clock d, world d) =
                 Some (replicate i None @ [Some e], (limiter r, clock r, world r))"
    then obtain i e where "spec_send_in_order transport target (take (Suc i) chunks)
                   (limiter d, clock d, world d) =
                 Some (replicate i None @ [Some e], (limiter r, clock r, world r))"
      by blast
    from spec_send_in_order_answers [OF this]
    have "\<exists>c t w. Some e = fst (transport target c t w)" by simp
    then show False using accepts by simp
  qed
  then show ?thesis using run alt by blast
qed

text \<open>
  While the window lasts and the tokens suffice, every chunk costs exactly one token:
  the transport taking at most \<open>latency\<close> per call, a dispatch of \<open>n\<close> chunks that starts
  early enough to end inside the window leaves \<open>n\<close> tokens fewer.
\<close>

lemma sendChunks_one_token_per_chunk:
  assumes accepts: "\<forall>c t w. fst (transport target c t w) = None"
    and latency: "\<forall>c t w. fst (snd (transport target c t w)) \<le> t + latency" "0 \<le> latency"
    and window: "clock d + int (length chunks) * latency - lastRefill (limiter d)
                   < refillIntervalMs (limiter d)"
    and enough: "int (length chunks) \<le> tokens (limiter d)"
  shows "\<exists>r. sendChunks transport target chunks d = Some r \<and>
           limiter r = (limiter d)\<lparr>tokens := tokens (limiter d) - int (length chunks)\<rparr>"
  using window enough
proof (induction chunks arbitrary: d)
  case Nil
  then show ?case by simp
next
  case (Cons chunk chunks)
  let ?lim = "(limiter d)\<lparr>tokens := tokens (limiter d) - 1\<rparr>"
  have "0 \<le> int (length (chunk # chunks)) * latency" using latency(2) by simp
  then have w: "clock d - lastRefill (limiter d) < refillIntervalMs (limiter d)"
    using Cons.prems(1) by linarith
  have t: "0 < tokens (limiter d)" using Cons.prems(2) by simp
  have wt: "waitForToken (limiter d) (clock d) [] [] = Some (?lim, clock d, [])"
    using t w by (rule waitForToken_in_window)
  obtain res now' w' where tr: "transport target chunk (clock d) (world d) = (res, now', w')"
    by (cases "transport target chunk (clock d) (world d)")
  have res: "res = None" using accepts tr by (metis fst_conv)
  have now': "now' \<le> clock d + latency" using latency(1) tr by (metis fst_conv snd_conv)
  let ?d' = "d\<lparr>events := events d @ [Admission, Handed target chunk None],
                limiter := ?lim, clock := now', world := w'\<rparr>"
  have run: "sendChunks transport target (chunk # chunks) d =
             sendChunks transport target chunks ?d'"
    using wt tr res by simp
  have "now' + int (length chunks) * latency \<le>
        clock d + int (length (chunk # chunks)) * latency"
    using now' by (simp add: algebra_simps)
  then have w': "clock ?d' + int (length chunks) * latency - lastRefill (limiter ?d')
                   < refillIntervalMs (limiter ?d')"
    using Cons.prems(1) by simp
  have e': "int (length chunks) \<le> tokens (limiter ?d')" using Cons.prems(2) by simp
  from Cons.IH [OF w' e'] obtain r where r: "sendChunks transport target chunks ?d' = Some r"
    and l: "limiter r = (limiter ?d')\<lparr>tokens := tokens (limiter ?d') - int (length chunks)\<rparr>"
    by blast
  have "limiter r = (limiter d)\<lparr>tokens := tokens (limiter d) - int (length (chunk # chunks))\<rparr>"
    using l by simp
  then show ?case using run r by simp
qed

text \<open>
  Claim C2. Let the rate limiter have a positive capacity and let one dispatch run alone
  on it. A connected \<^verbatim>\<open>sendMessage\<close> returns, and what it did is one of two things. Either
  it sent all the chunks of \<^verbatim>\<open>splitMessagePublic(text, 500)\<close> strictly in order, one at a
  time: every chunk was accepted, the events are one admission and then the chunk handed
  over, for each chunk in order, and the limiter, the clock and the network state are
  those that the steps in order leave, each step first waiting for its admission on the
  limiter that the step before left and then calling the transport at the clock of the
  admission, on the network state that the call before left. Or the transport rejected
  chunk \<open>i\<close>, and the same holds of the chunks up to \<open>i\<close>, the last answer being the error.
  When the transport accepts whatever it is handed, it is the first; when moreover it
  takes at most \<open>latency\<close> per call, the tokens suffice and the dispatch starts early
  enough to end inside the window, the limiter has exactly one token fewer per chunk.
  A manager that is not connected rejects the dispatch and does nothing. The same holds of \<^verbatim>\<open>sendWhisper\<close>
  with the bot's user id and the recipient as the target; without the API client or a
  bot user id it resolves and does nothing.
\<close>

theorem dispatch_sends_chunks_in_order:
  fixes say :: "(jsstring, 'e, 'w) transport"
    and whisper :: "(jsstring \<times> jsstring, 'e, 'w) transport"
  assumes "0 < maxTokens (rateLimiter m)"
  shows "(chatClient m \<longrightarrow>
          (\<exists>r chunks. sendMessage say m now w channel text = Some r \<and>
            splitMessagePublic text 500 = Some chunks \<and>
            ((spec_send_in_order say channel chunks (rateLimiter m, now, w) =
                Some (replicate (length chunks) None, (limiter r, clock r, world r)) \<and>
              failure r = None \<and>
              events r = spec_dispatch_events channel chunks) \<or>
             (\<exists>i e. i < length chunks \<and>
                spec_send_in_order say channel (take (Suc i) chunks) (rateLimiter m, now, w) =
                  Some (replicate i None @ [Some e], (limiter r, clock r, world r)) \<and>
                failure r = Some (TransportFailure e) \<and>
                events r = spec_dispatch_events channel (take i chunks) @
                             [Admission, Handed channel (chunks ! i) (Some e)])) \<and>
            ((\<forall>c t w'. fst (say channel c t w') = None) \<longrightarrow>
               spec_send_in_order say channel chunks (rateLimiter m, now, w) =
                 Some (replicate (length chunks) None, (limiter r, clock r, world r)) \<and>
               failure r = None \<and>
               events r = spec_dispatch_events channel chunks) \<and>
            ((\<forall>c t w'. fst (say channel c t w') = None \<and>
                       fst (snd (say channel c t w')) \<le> t + latency) \<and>
             0 \<le> latency \<and>
             now + int (length chunks) * latency - lastRefill (rateLimiter m)
               < refillIntervalMs (rateLimiter m) \<and>
             int (length chunks) \<le> tokens (rateLimiter m) \<longrightarrow>
               limiter r =
                 (rateLimiter m)\<lparr>tokens := tokens (rateLimiter m) - int (length chunks)\<rparr>))) \<and>
         (\<not> chatClient m \<longrightarrow>
            sendMessage say m now w channel text =
              Some \<lparr>failure = Some NotConnected, events = [], limiter = rateLimiter m,
                    clock = now, world = w\<rparr>) \<and>
         (apiClient m \<and> botUserId m = Some botId \<and> botId \<noteq> [] \<longrightarrow>
          (\<exists>r chunks. sendWhisper whisper m now w toUsername toUserId text = Some r \<and>
            splitMessagePublic text 500 = Some chunks \<and>
            ((spec_send_in_order whisper (botId, toUserId) chunks (rateLimiter m, now, w) =
                Some (replicate (length chunks) None, (limiter r, clock r, world r)) \<and>
              failure r = None \<and>
              events r = spec_dispatch_events (botId, toUserId) chunks) \<or>
             (\<exists>i e. i < length chunks \<and>
                spec_send_in_order whisper (botId, toUserId) (take (Suc i) chunks)
                    (rateLimiter m, now, w) =
                  Some (replicate i None @ [Some e], (limiter r, clock r, world r)) \<and>
                failure r = Some (TransportFailure e) \<and>
                events r = spec_dispatch_events (botId, toUserId) (take i chunks) @
                             [Admission, Handed (botId, toUserId) (chunks ! i) (Some e)])) \<and>
            ((\<forall>c t w'. fst (whisper (botId, toUserId) c t w') = None) \<longrightarrow>
               spec_send_in_order whisper (botId, toUserId) chunks (rateLimiter m, now, w) =
                 Some (replicate (length chunks) None, (limiter r, clock r, world r)) \<and>
               failure r = None \<and>
               events r = spec_dispatch_events (botId, toUserId) chunks) \<and>
            ((\<forall>c t w'. fst (whisper (botId, toUserId) c t w') = None \<and>
                       fst (snd (whisper (botId, toUserId) c t w')) \<le> t + latency) \<and>
             0 \<le> latency \<and>
             now + int (length chunks) * latency - lastRefill (rateLimiter m)
               < refillIntervalMs (rateLimiter m) \<and>
             int (length chunks) \<le> tokens (rateLimiter m) \<longrightarrow>
               limiter r =
                 (rateLimiter m)\<lparr>tokens := tokens (rateLimiter m) - int (length chunks)\<rparr>))) \<and>
         (\<not> apiClient m \<or> botUserId m = None \<or> botUserId m = Some [] \<longrightarrow>
            sendWhisper whisper m now w toUsername toUserId text =
              Some \<lparr>failure = None, events = [], limiter = rateLimiter m,
                    clock = now, world = w\<rparr>)"
proof (intro conjI impI)
  obtain chunks where chunks: "splitMessagePublic text 500 = Some chunks"
    using splitMessagePublic_returns [of 500 "text"] by auto
  let ?d = "\<lparr>failure = None, events = [], limiter = rateLimiter m, clock = now, world = w\<rparr>"
  {
    assume "chatClient m"
    then have run: "sendMessage say m now w channel text = sendChunks say channel chunks ?d"
      using chunks by (simp add: sendMessage_def TWITCH_MAX_MSG_LENGTH_def)
    have "\<exists>r. sendChunks say channel chunks ?d = Some r \<and>
           ((spec_send_in_order say channel chunks (rateLimiter m, now, w) =
               Some (replicate (length chunks) None, (limiter r, clock r, world r)) \<and>
             failure r = None \<and>
             events r = spec_dispatch_events channel chunks) \<or>
            (\<exists>i e. i < length chunks \<and>
               spec_send_in_order say channel (take (Suc i) chunks) (rateLimiter m, now, w) =
                 Some (replicate i None @ [Some e], (limiter r, clock r, world r)) \<and>
               failure r = Some (TransportFailure e) \<and>
               events r = spec_dispatch_events channel (take i chunks) @
                            [Admission, Handed channel (chunks ! i) (Some e)]))"
      using sendChunks_in_order [of ?d say channel chunks] assms by simp
    then obtain r where r: "sendChunks say channel chunks ?d = Some r"
      and alt: "(spec_send_in_order say channel chunks (rateLimiter m, now, w) =
               Some (replicate (length chunks) None, (limiter r, clock r, world r)) \<and>
             failure r = None \<and>
             events r = spec_dispatch_events channel chunks) \<or>
            (\<exists>i e. i < length chunks \<and>
               spec_send_in_order say channel (take (Suc i) chunks) (rateLimiter m, now, w) =
                 Some (replicate i None @ [Some e], (limiter r, clock r, world r)) \<and>
               failure r = Some (TransportFailure e) \<and>
               events r = spec_dispatch_events channel (take i chunks) @
                            [Admission, Handed channel (chunks ! i) (Some e)])"
      by blast
    have acc: "spec_send_in_order say channel chunks (rateLimiter m, now, w) =
                 Some (replicate (length chunks) None, (limiter r, clock r, world r)) \<and>
               failure r = None \<and>
               events r = spec_dispatch_events channel chunks"
      if "\<forall>c t w'. fst (say channel c t w') = None"
      using sendChunks_accepted [of ?d say channel chunks] assms that r by simp
    have cost: "limiter r =
        (rateLimiter m)\<lparr>tokens := tokens (rateLimiter m) - int (length chunks)\<rparr>"
      if "\<forall>c t w'. fst (say channel c t w') = None \<and>
                       fst (snd (say channel c t w')) \<le> t + latency" "0 \<le> latency"
        "now + int (length chunks) * latency - lastRefill (rateLimiter m)
               < refillIntervalMs (rateLimiter m)"
        "int (length chunks) \<le> tokens (rateLimiter m)"
      using sendChunks_one_token_per_chunk [of say channel latency ?d chunks] that r by simp
    show "\<exists>r chunks. sendMessage say m now w channel text = Some r \<and>
            splitMessagePublic text 500 = Some chunks \<and>
            ((spec_send_in_order say channel chunks (rateLimiter m, now, w) =
                Some (replicate (length chunks) None, (limiter r, clock r, world r)) \<and>
              failure r = None \<and>
              events r = spec_dispatch_events channel chunks) \<or>
             (\<exists>i e. i < length chunks \<and>
                spec_send_in_order say channel (take (Suc i) chunks) (rateLimiter m, now, w) =
                  Some (replicate i None @ [Some e], (limiter r, clock r, world r)) \<and>
                failure r = Some (TransportFailure e) \<and>
                events r = spec_dispatch_events channel (take i chunks) @
                             [Admission, Handed channel (chunks ! i) (Some e)])) \<and>
            ((\<forall>c t w'. fst (say channel c t w') = None) \<longrightarrow>
               spec_send_in_order say channel chunks (rateLimiter m, now, w) =
                 Some (replicate (length chunks) None, (limiter r, clock r, world r)) \<and>
               failure r = None \<and>
               events r = spec_dispatch_events channel chunks) \<and>
            ((\<forall>c t w'. fst (say channel c t w') = None \<and>
                       fst (snd (say channel c t w')) \<le> t + latency) \<and>
             0 \<le> latency \<and>
             now + int (length chunks) * latency - lastRefill (rateLimiter m)
               < refillIntervalMs (rateLimiter m) \<and>
             int (length chunks) \<le> tokens (rateLimiter m) \<longrightarrow>
               limiter r =
                 (rateLimiter m)\<lparr>tokens := tokens (rateLimiter m) - int (length chunks)\<rparr>)"
      using run r chunks alt acc cost by (intro exI [of _ r] exI [of _ chunks]) simp
  }
  {
    assume "\<not> chatClient m"
    then show "sendMessage say m now w channel text =
              Some \<lparr>failure = Some NotConnected, events = [], limiter = rateLimiter m,
                    clock = now, world = w\<rparr>"
      by (simp add: sendMessage_def)
  }
  {
    assume cfg: "apiClient m \<and> botUserId m = Some botId \<and> botId \<noteq> []"
    let ?t = "(botId, toUserId)"
    have run: "sendWhisper whisper m now w toUsername toUserId text =
        sendChunks whisper ?t chunks ?d"
      using cfg chunks by (simp add: sendWhisper_def TWITCH_MAX_MSG_LENGTH_def)
    have "\<exists>r. sendChunks whisper ?t chunks ?d = Some r \<and>
           ((spec_send_in_order whisper ?t chunks (rateLimiter m, now, w) =
               Some (replicate (length chunks) None, (limiter r, clock r, world r)) \<and>
             failure r = None \<and>
             events r = spec_dispatch_events ?t chunks) \<or>
            (\<exists>i e. i < length chunks \<and>
               spec_send_in_order whisper ?t (take (Suc i) chunks) (rateLimiter m, now, w) =
                 Some (replicate i None @ [Some e], (limiter r, clock r, world r)) \<and>
               failure r = Some (TransportFailure e) \<and>
               events r = spec_dispatch_events ?t (take i chunks) @
                            [Admission, Handed ?t (chunks ! i) (Some e)]))"
      using sendChunks_in_order [of ?d whisper ?t chunks] assms by simp
    then obtain r where r: "sendChunks whisper ?t chunks ?d = Some r"
      and alt: "(spec_send_in_order whisper ?t chunks (rateLimiter m, now, w) =
               Some (replicate (length chunks) None, (limiter r, clock r, world r)) \<and>
             failure r = None \<and>
             events r = spec_dispatch_events ?t chunks) \<or>
            (\<exists>i e. i < length chunks \<and>
               spec_send_in_order whisper ?t (take (Suc i) chunks) (rateLimiter m, now, w) =
                 Some (replicate i None @ [Some e], (limiter r, clock r, world r)) \<and>
               failure r = Some (TransportFailure e) \<and>
               events r = spec_dispatch_events ?t (take i chunks) @
                            [Admission, Handed ?t (chunks ! i) (Some e)])"
      by blast
    have acc: "spec_send_in_order whisper ?t chunks (rateLimiter m, now, w) =
                 Some (replicate (length chunks) None, (limiter r, clock r, world r)) \<and>
               failure r = None \<and>
               events r = spec_dispatch_events ?t chunks"
      if "\<forall>c t w'. fst (whisper ?t c t w') = None"
      using sendChunks_accepted [of ?d whisper ?t chunks] assms that r by simp
    have cost: "limiter r =
        (rateLimiter m)\<lparr>tokens := tokens (rateLimiter m) - int (length chunks)\<rparr>"
      if "\<forall>c t w'. fst (whisper ?t c t w') = None \<and>
                       fst (snd (whisper ?t c t w')) \<le> t + latency" "0 \<le> latency"
        "now + int (length chunks) * latency - lastRefill (rateLimiter m)
               < refillIntervalMs (rateLimiter m)"
        "int (length chunks) \<le> tokens (rateLimiter m)"
      using sendChunks_one_token_per_chunk [of whisper ?t latency ?d chunks] that r by simp
    show "\<exists>r chunks. sendWhisper whisper m now w toUsername toUserId text = Some r \<and>
            splitMessagePublic text 500 = Some chunks \<and>
            ((spec_send_in_order whisper (botId, toUserId) chunks (rateLimiter m, now, w) =
                Some (replicate (length chunks) None, (limiter r, clock r, world r)) \<and>
              failure r = None \<and>
              events r = spec_dispatch_events (botId, toUserId) chunks) \<or>
             (\<exists>i e. i < length chunks \<and>
                spec_send_in_order whisper (botId, toUserId) (take (Suc i) chunks)
                    (rateLimiter m, now, w) =
                  Some (replicate i None @ [Some e], (limiter r, clock r, world r)) \<and>
                failure r = Some (TransportFailure e) \<and>
                events r = spec_dispatch_events (botId, toUserId) (take i chunks) @
                             [Admission, Handed (botId, toUserId) (chunks ! i) (Some e)])) \<and>
            ((\<forall>c t w'. fst (whisper (botId, toUserId) c t w') = None) \<longrightarrow>
               spec_send_in_order whisper (botId, toUserId) chunks (rateLimiter m, now, w) =
                 Some (replicate (length chunks) None, (limiter r, clock r, world r)) \<and>
               failure r = None \<and>
               events r = spec_dispatch_events (botId, toUserId) chunks) \<and>
            ((\<forall>c t w'. fst (whisper (botId, toUserId) c t w') = None \<and>
                       fst (snd (whisper (botId, toUserId) c t w')) \<le> t + latency) \<and>
             0 \<le> latency \<and>
             now + int (length chunks) * latency - lastRefill (rateLimiter m)
               < refillIntervalMs (rateLimiter m) \<and>
             int (length chunks) \<le> tokens (rateLimiter m) \<longrightarrow>
               limiter r =
                 (rateLimiter m)\<lparr>tokens := tokens (rateLimiter m) - int (length chunks)\<rparr>)"
      using run r chunks alt acc cost by (intro exI [of _ r] exI [of _ chunks]) simp
  }
  {
    assume "\<not> apiClient m \<or> botUserId m = None \<or> botUserId m = Some []"
    then show "sendWhisper whisper m now w toUsername toUserId text =
              Some \<lparr>failure = None, events = [], limiter = rateLimiter m,
                    clock = now, world = w\<rparr>"
      by (auto simp: sendWhisper_def Let_def)
  }
qed

theorem dispatch_sends_chunks_in_order_witness:
  "0 < maxTokens (rateLimiter example_manager) \<and> chatClient example_manager \<and>
   (\<forall>c t w'. fst ((accepting_transport :: (jsstring, nat, nat) transport)
                     [0x23, 0x63] c t w') = None \<and>
              fst (snd ((accepting_transport :: (jsstring, nat, nat) transport)
                     [0x23, 0x63] c t w')) \<le> t + 40) \<and>
   (0::int) \<le> 40 \<and>
   0 + int (length [replicate 500 (0x61 :: code_unit), replicate 100 0x61]) * 40
       - lastRefill (rateLimiter example_manager)
     < refillIntervalMs (rateLimiter example_manager) \<and>
   int (length [replicate 500 (0x61 :: code_unit), replicate 100 0x61])
     \<le> tokens (rateLimiter example_manager) \<and>
   (\<exists>r. sendMessage accepting_transport example_manager 0 0 [0x23, 0x63] (replicate 600 0x61)
          = Some r \<and>
        failure r = None \<and>
        events r = spec_dispatch_events [0x23, 0x63] [replicate 500 0x61, replicate 100 0x61] \<and>
        limiter r = \<lparr>tokens = 18, lastRefill = 0, maxTokens = 20, refillIntervalMs = 30000\<rparr> \<and>
        clock r = 80 \<and> world r = 2 \<and>
        spec_send_in_order accepting_transport ([0x23, 0x63] :: jsstring)
            [replicate 500 0x61, replicate 100 0x61] (rateLimiter example_manager, 0, 0) =
          Some ([None, None], (limiter r, clock r, world r))) \<and>
   apiClient example_manager \<and> botUserId example_manager = Some [0x31] \<and>
   [0x31 :: code_unit] \<noteq> [] \<and>
   (\<forall>c t w'. fst ((accepting_transport :: (jsstring \<times> jsstring, nat, nat) transport)
                     ([0x31], [0x32]) c t w') = None \<and>
              fst (snd ((accepting_transport :: (jsstring \<times> jsstring, nat, nat) transport)
                     ([0x31], [0x32]) c t w')) \<le> t + 40) \<and>
   (\<exists>r. sendWhisper accepting_transport example_manager 0 0 [0x75] [0x32] (replicate 600 0x61)
          = Some r \<and>
        failure r = None \<and>
        events r = spec_dispatch_events ([0x31], [0x32]) [replicate 500 0x61, replicate 100 0x61] \<and>
        limiter r = \<lparr>tokens = 18, lastRefill = 0, maxTokens = 20, refillIntervalMs = 30000\<rparr> \<and>
        clock r = 80 \<and> world r = 2) \<and>
   chatClient (example_manager\<lparr>chatClient := False, botUserId := None\<rparr>) = False \<and>
   botUserId (example_manager\<lparr>chatClient := False, botUserId := None\<rparr>) = None \<and>
   sendMessage (accepting_transport :: (jsstring, nat, nat) transport)
       (example_manager\<lparr>chatClient := False, botUserId := None\<rparr>) 0 0 [0x23, 0x63]
       (replicate 600 0x61) =
     Some \<lparr>failure = Some NotConnected, events = [], limiter = RateLimiter_default 0,
           clock = 0, world = 0\<rparr> \<and>
   sendWhisper (accepting_transport :: (jsstring \<times> jsstring, nat, nat) transport)
       (example_manager\<lparr>chatClient := False, botUserId := None\<rparr>) 0 0 [0x75] [0x32]
       (replicate 600 0x61) =
     Some \<lparr>failure = None, events = [], limiter = RateLimiter_default 0,
           clock = 0, world = 0\<rparr>"
proof -
  note connected = dispatch_sends_chunks_in_order
      [of example_manager accepting_transport 0 0 "[0x23, 0x63]" "replicate 600 0x61" 40
          "[0x31]" accepting_transport "[0x75]" "[0x32]"]
  note unconnected = dispatch_sends_chunks_in_order
      [of "example_manager\<lparr>chatClient := False, botUserId := None\<rparr>"
          "accepting_transport :: (jsstring, nat, nat) transport" 0 0 "[0x23, 0x63]"
          "replicate 600 0x61" 40 "[0x31]"
          "accepting_transport :: (jsstring \<times> jsstring, nat, nat) transport" "[0x75]" "[0x32]"]
  have 1: "0 < maxTokens (rateLimiter example_manager) \<and> chatClient example_manager \<and>
   (\<forall>c t w'. fst ((accepting_transport :: (jsstring, nat, nat) transport)
                     [0x23, 0x63] c t w') = None \<and>
              fst (snd ((accepting_transport :: (jsstring, nat, nat) transport)
                     [0x23, 0x63] c t w')) \<le> t + 40) \<and>
   (0::int) \<le> 40 \<and>
   0 + int (length [replicate 500 (0x61 :: code_unit), replicate 100 0x61]) * 40
       - lastRefill (rateLimiter example_manager)
     < refillIntervalMs (rateLimiter example_manager) \<and>
   int (length [replicate 500 (0x61 :: code_unit), replicate 100 0x61])
     \<le> tokens (rateLimiter example_manager) \<and>
   (\<exists>r. sendMessage accepting_transport example_manager 0 0 [0x23, 0x63] (replicate 600 0x61)
          = Some r \<and>
        failure r = None \<and>
        events r = spec_dispatch_events [0x23, 0x63] [replicate 500 0x61, replicate 100 0x61] \<and>
        limiter r = \<lparr>tokens = 18, lastRefill = 0, maxTokens = 20, refillIntervalMs = 30000\<rparr> \<and>
        clock r = 80 \<and> world r = 2 \<and>
        spec_send_in_order accepting_transport ([0x23, 0x63] :: jsstring)
            [replicate 500 0x61, replicate 100 0x61] (rateLimiter example_manager, 0, 0) =
          Some ([None, None], (limiter r, clock r, world r))) \<and>
   apiClient example_manager \<and> botUserId example_manager = Some [0x31] \<and>
   [0x31 :: code_unit] \<noteq> [] \<and>
   (\<forall>c t w'. fst ((accepting_transport :: (jsstring \<times> jsstring, nat, nat) transport)
                     ([0x31], [0x32]) c t w') = None \<and>
              fst (snd ((accepting_transport :: (jsstring \<times> jsstring, nat, nat) transport)
                     ([0x31], [0x32]) c t w')) \<le> t + 40) \<and>
   (\<exists>r. sendWhisper accepting_transport example_manager 0 0 [0x75] [0x32] (replicate 600 0x61)
          = Some r \<and>
        failure r = None \<and>
        events r = spec_dispatch_events ([0x31], [0x32]) [replicate 500 0x61, replicate 100 0x61] \<and>
        limiter r = \<lparr>tokens = 18, lastRefill = 0, maxTokens = 20, refillIntervalMs = 30000\<rparr> \<and>
        clock r = 80 \<and> world r = 2)"
    using connected
    by (simp add: sendMessage_def sendWhisper_def example_manager_def accepting_transport_def
        TWITCH_MAX_MSG_LENGTH_def splitMessagePublic_replicate_600 isWhiteSpace_def
        RateLimiter_default_def RateLimiter_new_def waitForToken_in_window
        spec_dispatch_events_def)
  have 2: "chatClient (example_manager\<lparr>chatClient := False, botUserId := None\<rparr>) = False \<and>
   botUserId (example_manager\<lparr>chatClient := False, botUserId := None\<rparr>) = None \<and>
   sendMessage (accepting_transport :: (jsstring, nat, nat) transport)
       (example_manager\<lparr>chatClient := False, botUserId := None\<rparr>) 0 0 [0x23, 0x63]
       (replicate 600 0x61) =
     Some \<lparr>failure = Some NotConnected, events = [], limiter = RateLimiter_default 0,
           clock = 0, world = 0\<rparr> \<and>
   sendWhisper (accepting_transport :: (jsstring \<times> jsstring, nat, nat) transport)
       (example_manager\<lparr>chatClient := False, botUserId := None\<rparr>) 0 0 [0x75] [0x32]
       (replicate 600 0x61) =
     Some \<lparr>failure = None, events = [], limiter = RateLimiter_default 0,
           clock = 0, world = 0\<rparr>"
    using unconnected
    by (simp add: example_manager_def RateLimiter_default_def RateLimiter_new_def)
  from 1 2 show ?thesis by (elim conjE, intro conjI) assumption+
qed



end
